theory Spec2Isabelle
  imports Main
begin

section \<open>The relational store\<close>

text \<open>
  The functions of \<^verbatim>\<open>src/functions/src/index.ts\<close> talk to a relational store with three
  tables, \<^verbatim>\<open>hotels(hotel_id, updated_at)\<close>, \<^verbatim>\<open>services(id, name)\<close> and
  \<^verbatim>\<open>hotels_services(hotel_id, service_id, updated_at)\<close>. A table is the list of its rows in
  insertion order. Time stamps are natural numbers read from a clock.
\<close>

type_synonym timestamp = nat

record hotels_row =
  hotel_id :: string
  updated_at :: timestamp

record services_row =
  service_id :: nat
  name :: string

record hotels_services_row =
  hs_hotel_id :: string
  hs_service_id :: nat
  hs_updated_at :: timestamp

record database =
  hotels :: "hotels_row list"
  services :: "services_row list"
  hotels_services :: "hotels_services_row list"
  next_id :: nat

text \<open>
  The rows the filter query selects:
  \<^verbatim>\<open>hotel_id, hotels_services!inner(hotel_id, service_id, services!inner(name))\<close>.
\<close>

record joined_service =
  js_name :: string

record joined_hotels_services =
  j_hotel_id :: string
  j_service_id :: nat
  j_services :: joined_service

record joined_hotel =
  jh_hotel_id :: string
  jh_hotels_services :: "joined_hotels_services list"

text \<open>
  The error object of the store client, and the two ways the promise of a call can end for
  the code that awaits it: it resolves with a response that holds either the data or an
  error (the client's \<^verbatim>\<open>{ data, error }\<close>), or it rejects, which the
  \<^verbatim>\<open>try\<close> blocks of the code provide for.
\<close>

record PostgrestError =
  pg_message :: string
  pg_stack :: "string option"

datatype 'a response = Success 'a | Failure PostgrestError

datatype 'a outcome = Resolved "'a response" | Rejected PostgrestError

fun data :: "'a response \<Rightarrow> 'a option" where
  "data (Success a) = Some a"
| "data (Failure e) = None"

fun error :: "'a response \<Rightarrow> PostgrestError option" where
  "error (Success a) = None"
| "error (Failure e) = Some e"

text \<open>Every request the code sends, as it appears on the wire.\<close>

datatype request =
    SelectHotelsIn "string list"
  | UpsertHotels string timestamp
  | DeleteHotels string
  | DeleteHotelsServices string
  | SelectServicesEq string
  | InsertServices string
  | UpsertHotelsServices string nat timestamp

text \<open>
  What the environment does to the next requests: let the store serve it, or answer it with
  an error response (a failure of the transport or of the store). The client hands every
  failure to the code as the error of a response: it resolves every call and lets none
  reject. An exhausted list serves every request.
\<close>

datatype fault = Serve | ReplyError PostgrestError

datatype js_error = StoreRejection PostgrestError | TypeError string

datatype log_entry = LogMessage string | LogCaught js_error

record world =
  db :: database
  faults :: "fault list"
  issued :: "request list"
  logged :: "log_entry list"
  clock :: timestamp

subsection \<open>The store's side of each request\<close>

text \<open>
  Modelled from the spec: the store itself (an external service) is not part of the
  repository, and every definition of this subsection is the store's side of one request:
  what it returns and the tables it leaves. The tables follow section 6 of the specification
  (a deletion removes the rows of the hotel, a select by name returns the identifiers of the
  services with exactly that name) and the filter query follows section 4.3: for every
  hotel that has at least one association whose service name is among the requested names
  (an inner join hotels, hotels_services, services), the hotel with the list of its
  associations, each joined with its service.
\<close>

definition joined_rows :: "database \<Rightarrow> string \<Rightarrow> joined_hotels_services list" where
  "joined_rows d h =
     concat (map (\<lambda>a. map (\<lambda>s. \<lparr>j_hotel_id = hs_hotel_id a, j_service_id = hs_service_id a,
                                  j_services = \<lparr>js_name = name s\<rparr>\<rparr>)
                            (filter (\<lambda>s. service_id s = hs_service_id a) (services d)))
                 (filter (\<lambda>a. hs_hotel_id a = h) (hotels_services d)))"

definition db_select_hotels_in :: "string list \<Rightarrow> database \<Rightarrow> joined_hotel list" where
  "db_select_hotels_in names d =
     filter (\<lambda>r. \<exists>j \<in> set (jh_hotels_services r). js_name (j_services j) \<in> set names)
       (map (\<lambda>h. \<lparr>jh_hotel_id = hotel_id h, jh_hotels_services = joined_rows d (hotel_id h)\<rparr>)
            (hotels d))"

text \<open>Modelled from the spec: \<^verbatim>\<open>hotel_id\<close> is the key of \<^verbatim>\<open>hotels\<close> (section 6).\<close>

definition db_upsert_hotels :: "string \<Rightarrow> timestamp \<Rightarrow> database \<Rightarrow> database" where
  "db_upsert_hotels h t d =
     (if \<exists>r \<in> set (hotels d). hotel_id r = h
      then d\<lparr>hotels := map (\<lambda>r. if hotel_id r = h then r\<lparr>updated_at := t\<rparr> else r) (hotels d)\<rparr>
      else d\<lparr>hotels := hotels d @ [\<lparr>hotel_id = h, updated_at = t\<rparr>]\<rparr>)"

definition db_delete_hotels :: "string \<Rightarrow> database \<Rightarrow> database" where
  "db_delete_hotels h d = d\<lparr>hotels := filter (\<lambda>r. hotel_id r \<noteq> h) (hotels d)\<rparr>"

definition db_delete_hotels_services :: "string \<Rightarrow> database \<Rightarrow> database" where
  "db_delete_hotels_services h d =
     d\<lparr>hotels_services := filter (\<lambda>a. hs_hotel_id a \<noteq> h) (hotels_services d)\<rparr>"

definition db_select_services_eq :: "string \<Rightarrow> database \<Rightarrow> nat list" where
  "db_select_services_eq n d = map service_id (filter (\<lambda>s. name s = n) (services d))"

text \<open>
  Modelled from the spec: no two rows of \<^verbatim>\<open>services\<close> share a name (sections 3 and 6:
  \<^verbatim>\<open>name UNIQUE\<close>), so the store refuses the insert of a name it holds, with an error
  response and the tables unchanged. The identifier of a new service is generated by the
  store (section 3); here it is the next value of a counter.
\<close>

definition unique_violation :: PostgrestError where
  "unique_violation =
     \<lparr>pg_message = ''duplicate key value violates unique constraint'', pg_stack = None\<rparr>"

definition db_insert_services :: "string \<Rightarrow> database \<Rightarrow> nat list response \<times> database" where
  "db_insert_services n d =
     (if \<exists>r \<in> set (services d). name r = n
      then (Failure unique_violation, d)
      else (Success [next_id d],
            d\<lparr>services := services d @ [\<lparr>service_id = next_id d, name = n\<rparr>],
              next_id := Suc (next_id d)\<rparr>))"

text \<open>
  Modelled from the spec: an association is the pair of a hotel and a service (section 3); an
  upsert of a pair the table holds refreshes its time stamp.
\<close>

definition db_upsert_hotels_services :: "string \<Rightarrow> nat \<Rightarrow> timestamp \<Rightarrow> database \<Rightarrow> database" where
  "db_upsert_hotels_services h s t d =
     (if \<exists>a \<in> set (hotels_services d). hs_hotel_id a = h \<and> hs_service_id a = s
      then d\<lparr>hotels_services :=
               map (\<lambda>a. if hs_hotel_id a = h \<and> hs_service_id a = s then a\<lparr>hs_updated_at := t\<rparr> else a)
                   (hotels_services d)\<rparr>
      else d\<lparr>hotels_services :=
               hotels_services d @ [\<lparr>hs_hotel_id = h, hs_service_id = s, hs_updated_at = t\<rparr>]\<rparr>)"

subsection \<open>Sending a request\<close>

text \<open>
  A request is launched when the client's \<^verbatim>\<open>then\<close> is called (by \<^verbatim>\<open>await\<close> or
  by the code): it is on the wire from then on. Later the promise resolves, with the answer
  of the store when the environment lets the store serve the request and with the
  environment's error otherwise; only a served request reaches the tables, and the clock has
  advanced by then. An awaited call is the two in a row.
\<close>

definition launch :: "request \<Rightarrow> world \<Rightarrow> world" where
  "launch req w = w\<lparr>issued := issued w @ [req]\<rparr>"

definition respond ::
  "(database \<Rightarrow> 'a response \<times> database) \<Rightarrow> world \<Rightarrow> 'a outcome \<times> world" where
  "respond f w =
     (let w1 = w\<lparr>clock := Suc (clock w)\<rparr>;
          serve = (\<lambda>w2. case f (db w2) of (r, d) \<Rightarrow> (Resolved r, w2\<lparr>db := d\<rparr>))
      in case faults w of
           [] \<Rightarrow> serve w1
         | Serve # fs \<Rightarrow> serve (w1\<lparr>faults := fs\<rparr>)
         | ReplyError e # fs \<Rightarrow> (Resolved (Failure e), w1\<lparr>faults := fs\<rparr>))"

definition perform ::
  "request \<Rightarrow> (database \<Rightarrow> 'a response \<times> database) \<Rightarrow> world \<Rightarrow> 'a outcome \<times> world" where
  "perform req f w = respond f (launch req w)"

definition select_hotels_in :: "string list \<Rightarrow> world \<Rightarrow> joined_hotel list outcome \<times> world" where
  "select_hotels_in names =
     perform (SelectHotelsIn names) (\<lambda>d. (Success (db_select_hotels_in names d), d))"

definition upsert_hotels :: "string \<Rightarrow> timestamp \<Rightarrow> world \<Rightarrow> unit outcome \<times> world" where
  "upsert_hotels h t = perform (UpsertHotels h t) (\<lambda>d. (Success (), db_upsert_hotels h t d))"

definition delete_hotels :: "string \<Rightarrow> world \<Rightarrow> unit outcome \<times> world" where
  "delete_hotels h = perform (DeleteHotels h) (\<lambda>d. (Success (), db_delete_hotels h d))"

definition delete_hotels_services :: "string \<Rightarrow> world \<Rightarrow> unit outcome \<times> world" where
  "delete_hotels_services h =
     perform (DeleteHotelsServices h) (\<lambda>d. (Success (), db_delete_hotels_services h d))"

text \<open>
  The requests of the per-service chains are launched by the code and answered later; these
  are the answers.
\<close>

definition answer_select_services_eq :: "string \<Rightarrow> world \<Rightarrow> nat list outcome \<times> world" where
  "answer_select_services_eq n = respond (\<lambda>d. (Success (db_select_services_eq n d), d))"

definition answer_insert_services :: "string \<Rightarrow> world \<Rightarrow> nat list outcome \<times> world" where
  "answer_insert_services n = respond (db_insert_services n)"

definition answer_upsert_hotels_services ::
  "string \<Rightarrow> nat \<Rightarrow> timestamp \<Rightarrow> world \<Rightarrow> unit outcome \<times> world" where
  "answer_upsert_hotels_services h s t =
     respond (\<lambda>d. (Success (), db_upsert_hotels_services h s t d))"

section \<open>filterService\<close>

text \<open>
  \<^verbatim>\<open>class ServiceError extends Error\<close>: message, code (422 when not given) and the optional
  stack trace. What \<^verbatim>\<open>filterService\<close> throws is a \<open>ServiceError\<close> of its own or, when the
  query's promise rejects, whatever the client raised.
\<close>

datatype ServiceError = ServiceError (message: string) (code: nat) (stack: "string option")

datatype thrown = Thrown ServiceError | Raised js_error

record hotel_entry =
  he_hotel_id :: string
  he_services :: "string list"

text \<open>\<^verbatim>\<open>[...new Set(xs)]\<close>: the elements of \<open>xs\<close> once each, in the order they first occur.\<close>

definition spread_set :: "'a list \<Rightarrow> 'a list" where
  "spread_set xs = rev (remdups (rev xs))"

text \<open>Lines 94 to 107: the rows of the reply, mapped, filtered and made unique.\<close>

definition hotelData :: "string list \<Rightarrow> joined_hotel list \<Rightarrow> hotel_entry list" where
  "hotelData services_arg rows =
     filter (\<lambda>hotel. list_all (\<lambda>service. service \<in> set (he_services hotel)) services_arg)
       (map (\<lambda>hotel. \<lparr>he_hotel_id = jh_hotel_id hotel,
                       he_services = map (\<lambda>service. js_name (j_services service))
                                         (jh_hotels_services hotel)\<rparr>)
            rows)"

definition filterService ::
  "string list \<Rightarrow> string \<Rightarrow> string \<Rightarrow> world \<Rightarrow> (thrown + string list) \<times> world" where
  "filterService services_arg supabaseKey supabaseProjectId w =
     (if length services_arg = 0
      then (Inl (Thrown (ServiceError ''No services provided'' 422 None)), w)
      else if supabaseKey = [] \<or> supabaseProjectId = []
      then (Inl (Thrown (ServiceError ''Supabase configuration is not set'' 422 None)), w)
      else case select_hotels_in services_arg w of
             (Rejected e, w') \<Rightarrow> (Inl (Raised (StoreRejection e)), w')
           | (Resolved (Failure e), w') \<Rightarrow>
               (Inl (Thrown (ServiceError (pg_message e) 500 (pg_stack e))), w')
           | (Resolved (Success rows), w') \<Rightarrow>
               (Inr (spread_set (map he_hotel_id (hotelData services_arg rows))), w'))"

text \<open>
  A store that embeds, for each hotel, only the associations whose service is among the
  requested names sends the same rows with shorter lists.
\<close>

definition trimmed :: "string list \<Rightarrow> joined_hotel list \<Rightarrow> joined_hotel list" where
  "trimmed names rows =
     map (\<lambda>r. r\<lparr>jh_hotels_services :=
                   filter (\<lambda>j. js_name (j_services j) \<in> set names) (jh_hotels_services r)\<rparr>)
         rows"

text \<open>The names of the services a hotel is associated with in the tables.\<close>

definition association_names :: "database \<Rightarrow> string \<Rightarrow> string set" where
  "association_names d h =
     {name s | s a. a \<in> set (hotels_services d) \<and> hs_hotel_id a = h \<and>
                    s \<in> set (services d) \<and> service_id s = hs_service_id a}"

section \<open>hotelChanges\<close>

text \<open>
  The event of \<^verbatim>\<open>onDocumentWritten\<close>: \<^verbatim>\<open>event.data\<close> may be undefined,
  \<^verbatim>\<open>event.data.after.data()\<close> is undefined for a deleted document, and a document may lack
  the field \<^verbatim>\<open>services\<close>.
\<close>

record document =
  doc_services :: "string list option"

record change =
  after_data :: "document option"

record firestore_event =
  event_data :: "change option"
  params_hotelId :: string

text \<open>
  A per-service chain is the promise chain the callback starts for one element of
  \<^verbatim>\<open>document.services\<close>. It keeps the element (the variable \<^verbatim>\<open>service\<close> of the closure)
  and stands at one of these points: its select, insert or upsert is on the wire, or it has
  ended, fulfilled or with a rejection nobody handles.
\<close>

datatype stage =
    SelectPending
  | InsertPending
  | UpsertPending nat timestamp
  | Fulfilled
  | Unhandled js_error

datatype chain = Chain (chain_service: string) (chain_stage: stage)

text \<open>
  What the callback of \<^verbatim>\<open>document.services.map\<close> evaluates to, and the chains
  \<^verbatim>\<open>Promise.all\<close> waits for: the elements of its argument that are promises.
\<close>

datatype js_value = Undefined | Promise nat

definition promise_all :: "js_value list \<Rightarrow> nat list" where
  "promise_all vs = concat (map (\<lambda>v. case v of Undefined \<Rightarrow> [] | Promise i \<Rightarrow> [i]) vs)"

text \<open>
  What a run of the handler leaves: the world at its return, the chains it launched, those
  it waited for, and what it threw to the runtime that called it, if anything.
\<close>

record handler_result =
  hr_world :: world
  hr_chains :: "chain list"
  hr_awaited :: "nat list"
  hr_thrown :: "js_error option"

definition returned :: "world \<Rightarrow> handler_result" where
  "returned w = \<lparr>hr_world = w, hr_chains = [], hr_awaited = [], hr_thrown = None\<rparr>"

definition logger_error :: "log_entry \<Rightarrow> world \<Rightarrow> world" where
  "logger_error l w = w\<lparr>logged := logged w @ [l]\<rparr>"

text \<open>
  Lines 186 to 221, the callback: its body is a statement block without \<^verbatim>\<open>return\<close>. It
  calls \<^verbatim>\<open>then\<close> on the select, which launches the request, and evaluates to
  \<^verbatim>\<open>undefined\<close>.
\<close>

definition service_callback :: "string \<Rightarrow> world \<Rightarrow> (js_value \<times> chain) \<times> world" where
  "service_callback service w =
     ((Undefined, Chain service SelectPending), launch (SelectServicesEq service) w)"

fun map_services :: "string list \<Rightarrow> world \<Rightarrow> (js_value list \<times> chain list) \<times> world" where
  "map_services [] w = (([], []), w)"
| "map_services (service # rest) w =
     (case service_callback service w of
        ((v, c), w1) \<Rightarrow>
          (case map_services rest w1 of
             ((vs, cs), w2) \<Rightarrow> ((v # vs, c # cs), w2)))"

text \<open>
  Lines 171 and 172, the block of the \<^verbatim>\<open>try\<close> of the delete branch: two awaited calls,
  whose responses the code does not look at. The block ends normally or with what it threw.
\<close>

definition remove_try :: "string \<Rightarrow> world \<Rightarrow> (js_error + unit) \<times> world" where
  "remove_try ident w =
     (case delete_hotels ident w of
        (Rejected e, w1) \<Rightarrow> (Inl (StoreRejection e), w1)
      | (Resolved r1, w1) \<Rightarrow>
          (case delete_hotels_services ident w1 of
             (Rejected e, w2) \<Rightarrow> (Inl (StoreRejection e), w2)
           | (Resolved r2, w2) \<Rightarrow> (Inr (), w2)))"

text \<open>
  Lines 168 to 177, the delete branch: the block, the \<^verbatim>\<open>catch\<close> that logs what the block
  threw, and the \<^verbatim>\<open>return\<close>. The first component is what the branch throws to its
  caller.
\<close>

definition remove :: "string \<Rightarrow> world \<Rightarrow> js_error option \<times> world" where
  "remove ident w =
     (case remove_try ident w of
        (Inl e, w1) \<Rightarrow> (None, logger_error (LogCaught e) w1)
      | (Inr u, w1) \<Rightarrow> (None, w1))"


text \<open>Lines 179 to 225, up to the point where the handler returns.\<close>

definition reconcile :: "string \<Rightarrow> document \<Rightarrow> world \<Rightarrow> handler_result" where
  "reconcile ident doc w =
     (case upsert_hotels ident (clock w) w of
        (Rejected e, w1) \<Rightarrow> returned (logger_error (LogCaught (StoreRejection e)) w1)
      | (Resolved r1, w1) \<Rightarrow>
          (case delete_hotels_services ident w1 of
             (Rejected e, w2) \<Rightarrow> returned (logger_error (LogCaught (StoreRejection e)) w2)
           | (Resolved r2, w2) \<Rightarrow>
               (case doc_services doc of
                  None \<Rightarrow>
                    returned (logger_error (LogCaught (TypeError ''document.services is undefined'')) w2)
                | Some names \<Rightarrow>
                    (case map_services names w2 of
                       ((vs, cs), w3) \<Rightarrow>
                         \<lparr>hr_world = w3, hr_chains = cs, hr_awaited = promise_all vs,
                           hr_thrown = None\<rparr>))))"

definition hotelChanges ::
  "firestore_event \<Rightarrow> string \<Rightarrow> string \<Rightarrow> world \<Rightarrow> handler_result" where
  "hotelChanges event supabaseKey supabaseProjectId w =
     (case event_data event of
        None \<Rightarrow> returned w
      | Some ch \<Rightarrow>
          (let apiKey = supabaseKey;
               supabaseUrl = ''https://'' @ supabaseProjectId @ ''.supabase.co''
           in if apiKey = [] \<or> supabaseUrl = []
              then returned (logger_error (LogMessage ''Supabase configuration is not set'') w)
              else (let ident = params_hotelId event
                    in case after_data ch of
                         None \<Rightarrow>
                           (case remove ident w of
                              (thrown, w1) \<Rightarrow> (returned w1)\<lparr>hr_thrown := thrown\<rparr>)
                       | Some doc \<Rightarrow> reconcile ident doc w)))"

subsection \<open>The per-service chains\<close>

text \<open>
  Lines 191 to 220: one step of a chain. The answer to the request on the wire arrives and
  the callback that waits for it runs; it launches the next request of the chain or ends it.
  A rejection ends the chain and nothing handles it.
\<close>

fun advance :: "string \<Rightarrow> chain \<Rightarrow> world \<Rightarrow> chain \<times> world" where
  "advance ident (Chain service SelectPending) w =
     (case answer_select_services_eq service w of
        (Rejected e, w1) \<Rightarrow> (Chain service (Unhandled (StoreRejection e)), w1)
      | (Resolved existingService, w1) \<Rightarrow>
          (case data existingService of
             Some (existingServiceId # rest) \<Rightarrow>
               (Chain service (UpsertPending existingServiceId (clock w1)),
                launch (UpsertHotelsServices ident existingServiceId (clock w1)) w1)
           | _ \<Rightarrow> (Chain service InsertPending, launch (InsertServices service) w1)))"
| "advance ident (Chain service InsertPending) w =
     (case answer_insert_services service w of
        (Rejected e, w1) \<Rightarrow> (Chain service (Unhandled (StoreRejection e)), w1)
      | (Resolved response, w1) \<Rightarrow>
          (case data response of
             None \<Rightarrow> (Chain service Fulfilled, w1)
           | Some [] \<Rightarrow>
               (Chain service (Unhandled (TypeError ''response.data[0] is undefined'')), w1)
           | Some (newId # rest) \<Rightarrow>
               (Chain service (UpsertPending newId (clock w1)),
                launch (UpsertHotelsServices ident newId (clock w1)) w1)))"
| "advance ident (Chain service (UpsertPending s t)) w =
     (case answer_upsert_hotels_services ident s t w of
        (Rejected e, w1) \<Rightarrow> (Chain service (Unhandled (StoreRejection e)), w1)
      | (Resolved r, w1) \<Rightarrow> (Chain service Fulfilled, w1))"
| "advance ident (Chain service Fulfilled) w = (Chain service Fulfilled, w)"
| "advance ident (Chain service (Unhandled e)) w = (Chain service (Unhandled e), w)"

text \<open>
  The chains run after the handler, interleaved as the answers arrive: a schedule names, step
  by step, the chain whose answer arrives next.
\<close>

fun run :: "string \<Rightarrow> nat list \<Rightarrow> chain list \<times> world \<Rightarrow> chain list \<times> world" where
  "run ident [] sys = sys"
| "run ident (i # sched) (cs, w) =
     (if i < length cs
      then (case advance ident (cs ! i) w of (c, w1) \<Rightarrow> run ident sched (cs[i := c], w1))
      else run ident sched (cs, w))"

fun ended :: "chain \<Rightarrow> bool" where
  "ended (Chain service Fulfilled) = True"
| "ended (Chain service (Unhandled e)) = True"
| "ended (Chain service st) = False"

text \<open>The schedule that lets each chain end before the next one starts.\<close>

definition sequential :: "nat \<Rightarrow> nat list" where
  "sequential k = concat (map (\<lambda>i. [i, i, i]) [0..<k])"

text \<open>
  The chains of a handler's result, run to the end of a schedule: the chains and the world
  that are left.
\<close>

definition settle :: "string \<Rightarrow> nat list \<Rightarrow> handler_result \<Rightarrow> chain list \<times> world" where
  "settle ident sched r = run ident sched (hr_chains r, hr_world r)"

section \<open>Notions for the properties of hotelChanges\<close>

text \<open>
  The tables as the schema of section 6 of the specification keeps them: the identifier is
  the key of \<^verbatim>\<open>services\<close> and the store hands out fresh ones, so no two rows share an
  identifier and every identifier lies below the counter; and no two rows share a name.
\<close>

definition wf_services :: "database \<Rightarrow> bool" where
  "wf_services d =
     (distinct (map service_id (services d)) \<and>
      list_all (\<lambda>r. service_id r < next_id d) (services d) \<and>
      distinct (map name (services d)))"

text \<open>The identifier \<open>s\<close> belongs to a service named \<open>n\<close>.\<close>

definition resolves :: "database \<Rightarrow> nat \<Rightarrow> string \<Rightarrow> bool" where
  "resolves d s n = (\<exists>r \<in> set (services d). service_id r = s \<and> name r = n)"

text \<open>The associations as pairs of a hotel and a service, without their time stamps.\<close>

definition pairs :: "database \<Rightarrow> (string \<times> nat) set" where
  "pairs d = set (map (\<lambda>a. (hs_hotel_id a, hs_service_id a)) (hotels_services d))"

text \<open>The services a hotel is associated with.\<close>

definition associated :: "database \<Rightarrow> string \<Rightarrow> nat set" where
  "associated d h = {s. (h, s) \<in> pairs d}"

text \<open>
  What the chains of a run have sent: the requests issued after \<open>pre\<close>, the requests up
  to the handler's return. Among them the association rows the store is asked to upsert and
  the names it is asked to insert.
\<close>

definition sent :: "request list \<Rightarrow> world \<Rightarrow> request list" where
  "sent pre w = drop (length pre) (issued w)"

text \<open>
  The requests up to the return of the non-delete branch, for a list of names: what was
  issued before, the handler's two awaited calls, and one select per element.
\<close>

definition handler_sent :: "string \<Rightarrow> string list \<Rightarrow> world \<Rightarrow> request list" where
  "handler_sent ident names w =
     issued w @ [UpsertHotels ident (clock w), DeleteHotelsServices ident] @
     map SelectServicesEq names"

fun upserts_of :: "request list \<Rightarrow> (string \<times> nat \<times> timestamp) list" where
  "upserts_of [] = []"
| "upserts_of (UpsertHotelsServices h s t # rs) = (h, s, t) # upserts_of rs"
| "upserts_of (r # rs) = upserts_of rs"

fun inserts_of :: "request list \<Rightarrow> string list" where
  "inserts_of [] = []"
| "inserts_of (InsertServices n # rs) = n # inserts_of rs"
| "inserts_of (r # rs) = inserts_of rs"

text \<open>The chain waits for the answer to its insert; the chain is past its insert or needed none.\<close>

fun at_insert :: "chain \<Rightarrow> bool" where
  "at_insert (Chain service InsertPending) = True"
| "at_insert (Chain service st) = False"

fun at_upsert :: "chain \<Rightarrow> bool" where
  "at_upsert (Chain service (UpsertPending s t)) = True"
| "at_upsert (Chain service Fulfilled) = True"
| "at_upsert (Chain service st) = False"

text \<open>
  An upsert sent by a chain is for the hotel of the event, carries a time read after the
  handler started, and its service is one of the listed names.
\<close>

definition upsert_ok :: "database \<Rightarrow> string \<Rightarrow> string list \<Rightarrow> timestamp \<Rightarrow> timestamp \<Rightarrow>
    string \<times> nat \<times> timestamp \<Rightarrow> bool" where
  "upsert_ok d ident names c0 c1 u =
     (case u of (h, s, t) \<Rightarrow> h = ident \<and> c0 < t \<and> t \<le> c1 \<and> (\<exists>n \<in> set names. resolves d s n))"

text \<open>The requests a chain sends after its select: inserts of listed names and upserts.\<close>

fun chain_request :: "string \<Rightarrow> string list \<Rightarrow> request \<Rightarrow> bool" where
  "chain_request ident names (InsertServices n) = (n \<in> set names)"
| "chain_request ident names (UpsertHotelsServices h s t) = (h = ident)"
| "chain_request ident names r = False"

text \<open>
  What holds of a chain whatever the environment does: the upsert on the wire is among the
  upserts sent and is for a service that bears the chain's name, and no chain ends with a
  rejection.
\<close>

fun pending_ok :: "database \<Rightarrow> string \<Rightarrow> (string \<times> nat \<times> timestamp) list \<Rightarrow> chain \<Rightarrow> bool" where
  "pending_ok d ident ups (Chain n (UpsertPending s t)) =
     (resolves d s n \<and> (ident, s, t) \<in> set ups)"
| "pending_ok d ident ups (Chain n (Unhandled e)) = False"
| "pending_ok d ident ups (Chain n st) = True"

text \<open>
  The invariant of the chains of one run of the handler, whatever the environment does:
  the chains are those of the list, they have sent inserts of listed names and upserts for
  the hotel only, and the upserts and inserts sent are accounted for by the chains that
  stand at or past their upsert or at their insert and by the rows the table of services has
  gained since it had \<open>k0\<close> rows.
\<close>

definition sent_inv ::
  "string \<Rightarrow> string list \<Rightarrow> request list \<Rightarrow> timestamp \<Rightarrow> nat \<Rightarrow> chain list \<times> world \<Rightarrow> bool" where
  "sent_inv ident names pre c0 k0 sys =
     (case sys of (cs, w) \<Rightarrow>
        map chain_service cs = names \<and> c0 \<le> clock w \<and>
        take (length pre) (issued w) = pre \<and> length pre \<le> length (issued w) \<and>
        list_all (chain_request ident names) (sent pre w) \<and>
        length (upserts_of (sent pre w)) + length (inserts_of (sent pre w)) + k0 =
          length (filter at_upsert cs) + length (filter at_insert cs) + length (services (db w)) \<and>
        (\<forall>c \<in> set cs. pending_ok (db w) ident (upserts_of (sent pre w)) c) \<and>
        (\<forall>u \<in> set (upserts_of (sent pre w)). upsert_ok (db w) ident names c0 (clock w) u))"

text \<open>
  What holds of a chain while the store serves every request: a chain waits for the answer
  to its insert only while every service of its name is one inserted during this run (its
  identifier is \<open>i0\<close> or later), and a chain that is fulfilled has an upsert sent for a
  service of its name.
\<close>

fun chain_ok ::
  "database \<Rightarrow> string \<Rightarrow> nat \<Rightarrow> (string \<times> nat \<times> timestamp) list \<Rightarrow> chain \<Rightarrow> bool" where
  "chain_ok d ident i0 ups (Chain n SelectPending) = True"
| "chain_ok d ident i0 ups (Chain n InsertPending) =
     (\<forall>r \<in> set (services d). name r = n \<longrightarrow> i0 \<le> service_id r)"
| "chain_ok d ident i0 ups (Chain n (UpsertPending s t)) =
     (resolves d s n \<and> (ident, s, t) \<in> set ups)"
| "chain_ok d ident i0 ups (Chain n Fulfilled) =
     (\<exists>s t. resolves d s n \<and> (ident, s, t) \<in> set ups)"
| "chain_ok d ident i0 ups (Chain n (Unhandled e)) = False"

text \<open>An upsert that was sent has reached the table or is on the wire.\<close>

definition applied_or_pending ::
  "database \<Rightarrow> string \<Rightarrow> chain list \<Rightarrow> string \<times> nat \<times> timestamp \<Rightarrow> bool" where
  "applied_or_pending d ident cs u =
     (case u of (h, s, t) \<Rightarrow>
        (ident, s) \<in> pairs d \<or> (\<exists>c \<in> set cs. chain_stage c = UpsertPending s t))"

text \<open>
  The invariant of the chains of one run of the handler while the store serves every
  request.
\<close>

definition served_inv ::
  "string \<Rightarrow> string list \<Rightarrow> request list \<Rightarrow> nat \<Rightarrow> chain list \<times> world \<Rightarrow> bool" where
  "served_inv ident names pre i0 sys =
     (case sys of (cs, w) \<Rightarrow>
        faults w = [] \<and> wf_services (db w) \<and> map chain_service cs = names \<and>
        i0 \<le> next_id (db w) \<and> length pre \<le> length (issued w) \<and>
        (\<forall>c \<in> set cs. chain_ok (db w) ident i0 (upserts_of (sent pre w)) c) \<and>
        (\<forall>u \<in> set (upserts_of (sent pre w)). applied_or_pending (db w) ident cs u) \<and>
        (\<forall>r \<in> set (services (db w)). i0 \<le> service_id r \<longrightarrow>
           (\<exists>t. (ident, service_id r, t) \<in> set (upserts_of (sent pre w)))) \<and>
        (\<forall>s. (ident, s) \<in> pairs (db w) \<longrightarrow> (\<exists>n \<in> set names. resolves (db w) s n)))"

text \<open>The number of answers a chain waits for at most.\<close>

fun remaining :: "chain \<Rightarrow> nat" where
  "remaining (Chain n SelectPending) = 3"
| "remaining (Chain n InsertPending) = 2"
| "remaining (Chain n (UpsertPending s t)) = 1"
| "remaining (Chain n Fulfilled) = 0"
| "remaining (Chain n (Unhandled e)) = 0"

section \<open>Example data\<close>

text \<open>
  Hotel H1 offers wifi and pool, hotel H2 offers wifi. The theorems below are applied to
  these tables.
\<close>

definition demo_db :: database where
  "demo_db =
     \<lparr>hotels = [\<lparr>hotel_id = ''H1'', updated_at = 1\<rparr>, \<lparr>hotel_id = ''H2'', updated_at = 2\<rparr>],
      services = [\<lparr>service_id = 1, name = ''wifi''\<rparr>, \<lparr>service_id = 2, name = ''pool''\<rparr>],
      hotels_services =
        [\<lparr>hs_hotel_id = ''H1'', hs_service_id = 1, hs_updated_at = 1\<rparr>,
         \<lparr>hs_hotel_id = ''H1'', hs_service_id = 2, hs_updated_at = 1\<rparr>,
         \<lparr>hs_hotel_id = ''H2'', hs_service_id = 1, hs_updated_at = 2\<rparr>],
      next_id = 3\<rparr>"

definition demo_world :: world where
  "demo_world = \<lparr>db = demo_db, faults = [], issued = [], logged = [], clock = 10\<rparr>"

definition demo_error :: PostgrestError where
  "demo_error = \<lparr>pg_message = ''connection refused'', pg_stack = Some ''at fetch''\<rparr>"




text \<open>
  A document for a new hotel H3 that lists spa twice, a schedule that interleaves its three
  chains, and the worlds after one and after two runs of the handler with all chains ended.
\<close>

definition demo_document :: document where
  "demo_document = \<lparr>doc_services = Some [''wifi'', ''spa'', ''spa'']\<rparr>"

definition interleaved :: "nat list" where
  "interleaved = [0, 1, 2, 2, 1, 0, 1, 2]"

definition demo_settled :: "chain list \<times> world" where
  "demo_settled = settle ''H3'' interleaved (reconcile ''H3'' demo_document demo_world)"

definition demo_settled_twice :: "chain list \<times> world" where
  "demo_settled_twice =
     settle ''H3'' (sequential 3) (reconcile ''H3'' demo_document (snd demo_settled))"

text \<open>
  Two environments for a document that lists spa, a service the tables do not hold: one
  answers the chain's select and its insert with an error, the other only its insert. The
  worlds after the chain's first step and at its end.
\<close>

definition racing_world :: world where
  "racing_world =
     demo_world\<lparr>faults := [Serve, Serve, ReplyError demo_error, ReplyError demo_error]\<rparr>"

definition starved_world :: world where
  "starved_world = demo_world\<lparr>faults := [Serve, Serve, Serve, ReplyError demo_error]\<rparr>"

definition spa_document :: document where
  "spa_document = \<lparr>doc_services = Some [''spa'']\<rparr>"

definition racing_settled :: "chain list \<times> world" where
  "racing_settled = settle ''H3'' [0, 0] (reconcile ''H3'' spa_document racing_world)"

definition starved_at_insert :: "chain list \<times> world" where
  "starved_at_insert = settle ''H3'' [0] (reconcile ''H3'' spa_document starved_world)"

definition starved_settled :: "chain list \<times> world" where
  "starved_settled = settle ''H3'' [0, 0] (reconcile ''H3'' spa_document starved_world)"

section \<open>Properties of filterService\<close>

lemma set_spread_set: "set (spread_set xs) = set xs"
  by (simp add: spread_set_def)

lemma distinct_spread_set: "distinct (spread_set xs)"
  by (simp add: spread_set_def)

lemma names_joined_rows:
  "js_name ` j_services ` set (joined_rows d h) = association_names d h"
  by (force simp: joined_rows_def association_names_def image_iff)

lemma respond_cases:
  "respond f w =
     (case faults w of
        [] \<Rightarrow> (Resolved (fst (f (db w))), w\<lparr>clock := Suc (clock w), db := snd (f (db w))\<rparr>)
      | Serve # fs \<Rightarrow>
          (Resolved (fst (f (db w))),
           w\<lparr>clock := Suc (clock w), faults := fs, db := snd (f (db w))\<rparr>)
      | ReplyError e # fs \<Rightarrow> (Resolved (Failure e), w\<lparr>clock := Suc (clock w), faults := fs\<rparr>))"
  by (simp add: respond_def Let_def split: list.splits fault.splits prod.splits)

lemma select_hotels_in_Success:
  "select_hotels_in names w = (Resolved (Success rows), w') \<Longrightarrow>
     rows = db_select_hotels_in names (db w) \<and> db w' = db w"
  by (auto simp: select_hotels_in_def perform_def launch_def respond_cases
           split: list.splits fault.splits)

text \<open>
  An entry that survives the filter belongs to a row of \<^verbatim>\<open>hotels\<close>, and every requested
  name is the name of a service the hotel is associated with.
\<close>

lemma hotelData_sound:
  assumes "e \<in> set (hotelData names (db_select_hotels_in names d))"
  shows "he_hotel_id e \<in> hotel_id ` set (hotels d) \<and>
         set names \<subseteq> association_names d (he_hotel_id e)"
proof -
  from assms obtain r where r: "r \<in> set (db_select_hotels_in names d)"
    and e: "e = \<lparr>he_hotel_id = jh_hotel_id r,
                 he_services = map (\<lambda>service. js_name (j_services service))
                                   (jh_hotels_services r)\<rparr>"
    and every: "list_all (\<lambda>service. service \<in> set (he_services e)) names"
    by (auto simp: hotelData_def)
  from r obtain h where h: "h \<in> set (hotels d)"
    and r': "r = \<lparr>jh_hotel_id = hotel_id h, jh_hotels_services = joined_rows d (hotel_id h)\<rparr>"
    by (auto simp: db_select_hotels_in_def)
  have "set (he_services e) = association_names d (hotel_id h)"
    using e r' names_joined_rows [of d "hotel_id h"] by (simp add: image_image)
  with every e r' h show ?thesis
    by (auto simp: list_all_iff)
qed

text \<open>
  The result of the filter is the same for such a store: what \<^verbatim>\<open>filterService\<close> returns
  does not depend on whether the embedded lists are complete.
\<close>

lemma hotelData_trimmed:
  "map he_hotel_id (hotelData names (trimmed names rows)) =
   map he_hotel_id (hotelData names rows)"
proof (induction rows)
  case Nil
  show ?case by (simp add: hotelData_def trimmed_def)
next
  case (Cons r rows)
  have "list_all (\<lambda>service. service \<in> (\<lambda>j. js_name (j_services j)) `
            {j \<in> set (jh_hotels_services r). js_name (j_services j) \<in> set names}) names =
        list_all (\<lambda>service. service \<in> (\<lambda>j. js_name (j_services j)) `
            set (jh_hotels_services r)) names"
    by (auto simp: list_all_iff)
  with Cons show ?case
    by (simp add: hotelData_def trimmed_def)
qed

lemma filterService_sound:
  assumes "filterService names k p w = (Inr hs, w')" and "h \<in> set hs"
  shows "h \<in> hotel_id ` set (hotels (db w)) \<and> set names \<subseteq> association_names (db w) h \<and>
         names \<noteq> [] \<and> db w' = db w"
proof -
  from assms(1) have ne: "names \<noteq> []"
    by (auto simp: filterService_def split: if_splits)
  from assms(1) obtain rows
    where sel: "select_hotels_in names w = (Resolved (Success rows), w')"
      and hs: "hs = spread_set (map he_hotel_id (hotelData names rows))"
    by (auto simp: filterService_def
             split: if_splits prod.splits outcome.splits response.splits)
  from select_hotels_in_Success [OF sel]
  have rows: "rows = db_select_hotels_in names (db w)" and d: "db w' = db w"
    by simp_all
  from assms(2) hs obtain e where "e \<in> set (hotelData names rows)" and "h = he_hotel_id e"
    by (auto simp: set_spread_set)
  with hotelData_sound [of e names "db w"] rows ne d show ?thesis by simp
qed

text \<open>
  C1. For a non-empty list of required service names, every hotel identifier that
  \<^verbatim>\<open>filterService\<close> returns has all the required names among the names of its
  associated services: the required names are a subset of the hotel's names (all of them,
  not one of them).
\<close>

theorem filterService_superset:
  assumes "services_arg \<noteq> []"
    and "filterService services_arg supabaseKey supabaseProjectId w = (Inr hs, w')"
    and "h \<in> set hs"
  shows "set services_arg \<subseteq> association_names (db w) h"
  using filterService_sound [OF assms(2,3)] by simp

theorem filterService_superset_witness:
  "fst (filterService [''wifi'', ''pool''] ''key'' ''project'' demo_world) = Inr [''H1''] \<and>
   set [''wifi'', ''pool''] \<subseteq> association_names (db demo_world) ''H1''"
proof -
  have run: "fst (filterService [''wifi'', ''pool''] ''key'' ''project'' demo_world) = Inr [''H1'']"
    by code_simp
  then have "filterService [''wifi'', ''pool''] ''key'' ''project'' demo_world =
      (Inr [''H1''], snd (filterService [''wifi'', ''pool''] ''key'' ''project'' demo_world))"
    by (simp add: prod_eq_iff)
  from filterService_superset [OF _ this, of "''H1''"] run show ?thesis by simp
qed

text \<open>
  C4. For the empty list \<^verbatim>\<open>filterService\<close> fails with the \<open>ServiceError\<close> "No services
  provided" of code 422, whatever the configuration and the state of the store, and sends
  no request: the world, with its list of issued requests, is the one it started from.
\<close>

theorem filterService_empty:
  "filterService [] supabaseKey supabaseProjectId w =
     (Inl (Thrown (ServiceError ''No services provided'' 422 None)), w) \<and>
   issued (snd (filterService [] supabaseKey supabaseProjectId w)) = issued w"
  by (simp add: filterService_def)

text \<open>
  C8. When the store answers the filter query with an error, \<^verbatim>\<open>filterService\<close> fails with
  a \<open>ServiceError\<close> of code 500 that carries the store's message and its optional stack
  trace; when the key or the project identifier is missing it fails with code 422.
\<close>

theorem filterService_store_error:
  "(services_arg \<noteq> [] \<and> supabaseKey \<noteq> [] \<and> supabaseProjectId \<noteq> [] \<and>
      fst (select_hotels_in services_arg w) = Resolved (Failure e) \<longrightarrow>
      fst (filterService services_arg supabaseKey supabaseProjectId w) =
        Inl (Thrown (ServiceError (pg_message e) 500 (pg_stack e)))) \<and>
   (supabaseKey = [] \<or> supabaseProjectId = [] \<longrightarrow>
      (\<exists>m. fst (filterService services_arg supabaseKey supabaseProjectId w) =
             Inl (Thrown (ServiceError m 422 None))))"
  by (auto simp: filterService_def split: prod.splits outcome.splits response.splits)

theorem filterService_store_error_witness:
  "fst (select_hotels_in [''wifi''] (demo_world\<lparr>faults := [ReplyError demo_error]\<rparr>)) =
     Resolved (Failure demo_error) \<and>
   fst (filterService [''wifi''] ''key'' ''project'' (demo_world\<lparr>faults := [ReplyError demo_error]\<rparr>)) =
     Inl (Thrown (ServiceError ''connection refused'' 500 (Some ''at fetch''))) \<and>
   (\<exists>m. fst (filterService [''wifi''] [] ''project'' demo_world) =
          Inl (Thrown (ServiceError m 422 None)))"
proof -
  have failing: "fst (select_hotels_in [''wifi''] (demo_world\<lparr>faults := [ReplyError demo_error]\<rparr>)) =
      Resolved (Failure demo_error)"
    by code_simp
  from filterService_store_error
         [of "[''wifi'']" "''key''" "''project''"
             "demo_world\<lparr>faults := [ReplyError demo_error]\<rparr>" demo_error]
       filterService_store_error [of "[''wifi'']" "[]" "''project''" demo_world]
       failing
  show ?thesis by (simp add: demo_error_def)
qed

text \<open>
  C10. The check of the list comes before the check of the configuration: for the empty list
  the error is "No services provided" with code 422 for every key and project identifier,
  missing ones included, while a non-empty list with a missing key or project identifier
  gets the configuration error.
\<close>

theorem filterService_empty_before_configuration:
  "fst (filterService [] supabaseKey supabaseProjectId w) =
     Inl (Thrown (ServiceError ''No services provided'' 422 None)) \<and>
   fst (filterService [] [] [] w) =
     Inl (Thrown (ServiceError ''No services provided'' 422 None)) \<and>
   fst (filterService (s # ss) [] supabaseProjectId w) =
     Inl (Thrown (ServiceError ''Supabase configuration is not set'' 422 None)) \<and>
   fst (filterService (s # ss) supabaseKey [] w) =
     Inl (Thrown (ServiceError ''Supabase configuration is not set'' 422 None))"
  by (simp add: filterService_def)

section \<open>The branches of hotelChanges\<close>


lemma hotelChanges_reconcile:
  "supabaseKey \<noteq> [] \<Longrightarrow> event_data event = Some ch \<Longrightarrow> after_data ch = Some doc \<Longrightarrow>
     hotelChanges event supabaseKey supabaseProjectId w =
       reconcile (params_hotelId event) doc w"
  by (simp add: hotelChanges_def)

lemma hotelChanges_no_data:
  "event_data event = None \<Longrightarrow>
     hotelChanges event supabaseKey supabaseProjectId w = returned w"
  by (simp add: hotelChanges_def)

lemma hotelChanges_no_key:
  "event_data event = Some ch \<Longrightarrow>
     hotelChanges event [] supabaseProjectId w =
       returned (logger_error (LogMessage ''Supabase configuration is not set'') w)"
  by (simp add: hotelChanges_def)

section \<open>Properties of the delete branch\<close>

text \<open>
  An awaited call always resolves: the request is recorded, the clock advances, nothing is
  logged, and the tables change only when the store serves the request.
\<close>

lemma perform_cases:
  "perform req f w =
     (case faults w of
        [] \<Rightarrow> (Resolved (fst (f (db w))),
               w\<lparr>issued := issued w @ [req], clock := Suc (clock w), db := snd (f (db w))\<rparr>)
      | Serve # fs \<Rightarrow>
          (Resolved (fst (f (db w))),
           w\<lparr>issued := issued w @ [req], clock := Suc (clock w), faults := fs,
             db := snd (f (db w))\<rparr>)
      | ReplyError e # fs \<Rightarrow>
          (Resolved (Failure e), w\<lparr>issued := issued w @ [req], clock := Suc (clock w), faults := fs\<rparr>))"
  by (simp add: perform_def launch_def respond_cases split: list.splits fault.splits)

lemma perform_effect:
  "perform req f w = (r, w') \<Longrightarrow>
     issued w' = issued w @ [req] \<and> logged w' = logged w \<and> clock w' = Suc (clock w)"
  by (auto simp: perform_cases split: list.splits fault.splits)

lemma perform_resolves: "\<exists>r. fst (perform req f w) = Resolved r"
  by (simp add: perform_cases split: list.splits fault.splits)

lemma perform_db:
  "perform req (\<lambda>d. (Success a, g d)) w = (r, w') \<Longrightarrow>
     (r = Resolved (Success a) \<and> db w' = g (db w)) \<or> ((\<exists>e. r = Resolved (Failure e)) \<and> db w' = db w)"
  by (auto simp: perform_cases split: list.splits fault.splits)





lemma association_names_deleted [simp]:
  "association_names (db_delete_hotels_services h d) h = {}"
  by (auto simp: association_names_def db_delete_hotels_services_def)

lemma hotels_deleted [simp]:
  "h \<notin> hotel_id ` set (hotels (db_delete_hotels h d))"
  by (auto simp: db_delete_hotels_def)







section \<open>One step of a chain\<close>

text \<open>
  What one answer does to a chain and to the world, stage by stage and whatever the
  environment answers.
\<close>

declare advance.simps [simp del]

lemma advance_ended [simp]:
  "advance ident (Chain n Fulfilled) w = (Chain n Fulfilled, w)"
  "advance ident (Chain n (Unhandled e)) w = (Chain n (Unhandled e), w)"
  by (simp_all add: advance.simps)

lemma respond_outcome:
  assumes "respond f w = (r, w')"
  shows "issued w' = issued w \<and> logged w' = logged w \<and> clock w' = Suc (clock w) \<and>
         faults w' = tl (faults w) \<and>
         ((r = Resolved (fst (f (db w))) \<and> db w' = snd (f (db w))) \<or>
          ((\<exists>e. r = Resolved (Failure e)) \<and> db w' = db w \<and> faults w \<noteq> []))"
  using assms by (auto simp: respond_cases split: list.splits fault.splits)

lemma advance_select_cases:
  assumes "advance ident (Chain n SelectPending) w = (c', w')"
  shows "clock w' = Suc (clock w) \<and> db w' = db w \<and> faults w' = tl (faults w) \<and>
         logged w' = logged w \<and>
         ((\<exists>x xs. db_select_services_eq n (db w) = x # xs \<and>
             c' = Chain n (UpsertPending x (Suc (clock w))) \<and>
             issued w' = issued w @ [UpsertHotelsServices ident x (Suc (clock w))]) \<or>
          (c' = Chain n InsertPending \<and> issued w' = issued w @ [InsertServices n] \<and>
             (faults w = [] \<longrightarrow> db_select_services_eq n (db w) = [])))"
proof -
  obtain r w1 where r: "answer_select_services_eq n w = (r, w1)"
    by (cases "answer_select_services_eq n w")
  from respond_outcome [OF r [unfolded answer_select_services_eq_def]]
  have w1: "issued w1 = issued w" "logged w1 = logged w" "clock w1 = Suc (clock w)"
    "faults w1 = tl (faults w)" "db w1 = db w"
    and out: "r = Resolved (Success (db_select_services_eq n (db w))) \<or>
      ((\<exists>e. r = Resolved (Failure e)) \<and> faults w \<noteq> [])"
    by auto
  from out show ?thesis
  proof
    assume s: "r = Resolved (Success (db_select_services_eq n (db w)))"
    show ?thesis
    proof (cases "db_select_services_eq n (db w)")
      case Nil
      with assms r s w1 show ?thesis by (auto simp: advance.simps launch_def)
    next
      case (Cons x xs)
      with assms r s w1 show ?thesis by (auto simp: advance.simps launch_def)
    qed
  next
    assume "(\<exists>e. r = Resolved (Failure e)) \<and> faults w \<noteq> []"
    with assms r w1 show ?thesis by (auto simp: advance.simps launch_def)
  qed
qed

lemma advance_insert_cases:
  assumes "advance ident (Chain n InsertPending) w = (c', w')"
  shows "clock w' = Suc (clock w) \<and> faults w' = tl (faults w) \<and> logged w' = logged w \<and>
         (((\<forall>r \<in> set (services (db w)). name r \<noteq> n) \<and>
           c' = Chain n (UpsertPending (next_id (db w)) (Suc (clock w))) \<and>
           db w' = (db w)\<lparr>services := services (db w) @ [\<lparr>service_id = next_id (db w), name = n\<rparr>],
                          next_id := Suc (next_id (db w))\<rparr> \<and>
           issued w' = issued w @ [UpsertHotelsServices ident (next_id (db w)) (Suc (clock w))]) \<or>
          (c' = Chain n Fulfilled \<and> db w' = db w \<and> issued w' = issued w \<and>
           (faults w = [] \<longrightarrow> (\<exists>r \<in> set (services (db w)). name r = n))))"
proof -
  obtain r w1 where r: "answer_insert_services n w = (r, w1)"
    by (cases "answer_insert_services n w")
  from respond_outcome [OF r [unfolded answer_insert_services_def]]
  have w1: "issued w1 = issued w" "logged w1 = logged w" "clock w1 = Suc (clock w)"
    "faults w1 = tl (faults w)"
    and out: "(r = Resolved (fst (db_insert_services n (db w))) \<and>
        db w1 = snd (db_insert_services n (db w))) \<or>
      ((\<exists>e. r = Resolved (Failure e)) \<and> db w1 = db w \<and> faults w \<noteq> [])"
    by auto
  from out show ?thesis
  proof
    assume s: "r = Resolved (fst (db_insert_services n (db w))) \<and>
        db w1 = snd (db_insert_services n (db w))"
    show ?thesis
    proof (cases "\<exists>r \<in> set (services (db w)). name r = n")
      case True
      have "db_insert_services n (db w) = (Failure unique_violation, db w)"
        by (simp only: db_insert_services_def if_P [OF True])
      with assms r s w1 True show ?thesis by (auto simp: advance.simps)
    next
      case False
      have "db_insert_services n (db w) =
          (Success [next_id (db w)],
           (db w)\<lparr>services := services (db w) @ [\<lparr>service_id = next_id (db w), name = n\<rparr>],
                  next_id := Suc (next_id (db w))\<rparr>)"
        by (simp only: db_insert_services_def if_not_P [OF False])
      with assms r s w1 False show ?thesis by (auto simp: advance.simps launch_def)
    qed
  next
    assume "(\<exists>e. r = Resolved (Failure e)) \<and> db w1 = db w \<and> faults w \<noteq> []"
    with assms r w1 show ?thesis by (auto simp: advance.simps)
  qed
qed

lemma advance_upsert_cases:
  assumes "advance ident (Chain n (UpsertPending s t)) w = (c', w')"
  shows "c' = Chain n Fulfilled \<and> clock w' = Suc (clock w) \<and> faults w' = tl (faults w) \<and>
         logged w' = logged w \<and> issued w' = issued w \<and>
         (db w' = db_upsert_hotels_services ident s t (db w) \<or>
          (db w' = db w \<and> faults w \<noteq> []))"
proof -
  obtain r w1 where r: "answer_upsert_hotels_services ident s t w = (r, w1)"
    by (cases "answer_upsert_hotels_services ident s t w")
  from respond_outcome [OF r [unfolded answer_upsert_hotels_services_def]]
  have "issued w1 = issued w" "logged w1 = logged w" "clock w1 = Suc (clock w)"
    "faults w1 = tl (faults w)"
    "(\<exists>x. r = Resolved x) \<and> (db w1 = db_upsert_hotels_services ident s t (db w) \<or>
      (db w1 = db w \<and> faults w \<noteq> []))"
    by auto
  with assms r show ?thesis by (auto simp: advance.simps)
qed

section \<open>What the chains have sent\<close>

lemma upserts_of_append: "upserts_of (xs @ ys) = upserts_of xs @ upserts_of ys"
  by (induction xs rule: upserts_of.induct) simp_all

lemma inserts_of_append: "inserts_of (xs @ ys) = inserts_of xs @ inserts_of ys"
  by (induction xs rule: inserts_of.induct) simp_all

lemma sent_append:
  "length pre \<le> length (issued w) \<Longrightarrow> issued w' = issued w @ qs \<Longrightarrow>
     sent pre w' = sent pre w @ qs \<and>
     take (length pre) (issued w') = take (length pre) (issued w) \<and>
     length pre \<le> length (issued w')"
  by (simp add: sent_def)

lemma length_filter_update:
  "i < length xs \<Longrightarrow>
     length (filter P (xs[i := x])) + (if P (xs ! i) then 1 else 0) =
     length (filter P xs) + (if P x then 1 else 0)"
proof (induction xs arbitrary: i)
  case Nil
  then show ?case by simp
next
  case (Cons a xs)
  then show ?case by (cases i) auto
qed

lemma set_update_cases: "c \<in> set (xs[i := x]) \<Longrightarrow> c = x \<or> c \<in> set xs"
  using set_update_subset_insert [of xs i x] by auto

lemma pending_ok_mono:
  assumes ok: "pending_ok d ident ups c"
    and res: "\<And>s n. resolves d s n \<Longrightarrow> resolves d' s n"
    and sub: "set ups \<subseteq> set ups'"
  shows "pending_ok d' ident ups' c"
proof (cases c)
  case (Chain n st)
  with assms show ?thesis by (cases st) auto
qed

lemma upsert_ok_mono:
  assumes "upsert_ok d ident names c0 c1 u"
    and "\<And>s n. resolves d s n \<Longrightarrow> resolves d' s n" and "c1 \<le> c2"
  shows "upsert_ok d' ident names c0 c2 u"
  using assms by (auto simp: upsert_ok_def)

lemma sent_inv_transition:
  assumes inv: "sent_inv ident names pre c0 k0 (cs, w)" and i: "i < length cs"
    and svc: "chain_service c' = chain_service (cs ! i)"
    and clk: "clock w \<le> clock w'"
    and iss: "issued w' = issued w @ qs"
    and req: "list_all (chain_request ident names) qs"
    and mono: "\<And>s n. resolves (db w) s n \<Longrightarrow> resolves (db w') s n"
    and acc: "length (upserts_of qs) + length (inserts_of qs) +
                (if at_upsert (cs ! i) then 1 else 0) + (if at_insert (cs ! i) then 1 else 0) +
                length (services (db w)) =
              (if at_upsert c' then 1 else 0) + (if at_insert c' then 1 else 0) +
                length (services (db w'))"
    and pend: "pending_ok (db w') ident (upserts_of (sent pre w) @ upserts_of qs) c'"
    and new: "\<And>u. u \<in> set (upserts_of qs) \<Longrightarrow> upsert_ok (db w') ident names c0 (clock w') u"
  shows "sent_inv ident names pre c0 k0 (cs[i := c'], w')"
proof -
  from inv have names: "map chain_service cs = names" and c0: "c0 \<le> clock w"
    and pre: "take (length pre) (issued w) = pre" and len: "length pre \<le> length (issued w)"
    and reqs: "list_all (chain_request ident names) (sent pre w)"
    and count: "length (upserts_of (sent pre w)) + length (inserts_of (sent pre w)) + k0 =
        length (filter at_upsert cs) + length (filter at_insert cs) + length (services (db w))"
    and ok: "\<And>c. c \<in> set cs \<Longrightarrow> pending_ok (db w) ident (upserts_of (sent pre w)) c"
    and ups: "\<And>u. u \<in> set (upserts_of (sent pre w)) \<Longrightarrow>
        upsert_ok (db w) ident names c0 (clock w) u"
    by (simp_all add: sent_inv_def)
  from sent_append [OF len iss]
  have s': "sent pre w' = sent pre w @ qs" and pre': "take (length pre) (issued w') = pre"
    and len': "length pre \<le> length (issued w')"
    using pre by simp_all
  have names': "map chain_service (cs[i := c']) = names"
    using names svc i by (metis list_update_id map_update)
  have count': "length (upserts_of (sent pre w')) + length (inserts_of (sent pre w')) + k0 =
      length (filter at_upsert (cs[i := c'])) + length (filter at_insert (cs[i := c'])) +
      length (services (db w'))"
    using count acc length_filter_update [OF i, of at_upsert c']
      length_filter_update [OF i, of at_insert c']
    by (simp add: s' upserts_of_append inserts_of_append split: if_splits)
  have ok': "pending_ok (db w') ident (upserts_of (sent pre w')) c"
    if "c \<in> set (cs[i := c'])" for c
  proof -
    from that consider "c = c'" | "c \<in> set cs" by (auto dest!: set_update_cases)
    then show ?thesis
    proof cases
      case 1
      with pend show ?thesis by (simp add: s' upserts_of_append)
    next
      case 2
      show ?thesis
        by (rule pending_ok_mono [OF ok [OF 2]]) (auto simp: s' upserts_of_append mono)
    qed
  qed
  have ups': "upsert_ok (db w') ident names c0 (clock w') u"
    if "u \<in> set (upserts_of (sent pre w'))" for u
  proof -
    from that consider "u \<in> set (upserts_of qs)" | "u \<in> set (upserts_of (sent pre w))"
      by (auto simp: s' upserts_of_append)
    then show ?thesis
    proof cases
      case 1
      then show ?thesis by (rule new)
    next
      case 2
      show ?thesis
        by (rule upsert_ok_mono [OF ups [OF 2]]) (use mono clk in auto)
    qed
  qed
  from names' c0 clk pre' len' reqs req count' ok' ups'
  show ?thesis
    unfolding sent_inv_def prod.case
    by (intro conjI ballI) (simp_all add: s')
qed

lemma select_found_resolves:
  "db_select_services_eq n d = x # xs \<Longrightarrow> resolves d x n"
proof -
  assume "db_select_services_eq n d = x # xs"
  then have "x \<in> set (map service_id (filter (\<lambda>s. name s = n) (services d)))"
    by (simp add: db_select_services_eq_def)
  then show ?thesis by (auto simp: resolves_def)
qed

lemma select_missing_absent:
  "db_select_services_eq n d = [] \<Longrightarrow> \<forall>r \<in> set (services d). name r \<noteq> n"
  by (auto simp: db_select_services_eq_def filter_empty_conv)

lemma resolves_inserted:
  "resolves d s m \<Longrightarrow>
     resolves (d\<lparr>services := services d @ [\<lparr>service_id = x, name = n\<rparr>], next_id := k\<rparr>) s m"
  by (auto simp: resolves_def)

lemma resolves_new:
  "resolves (d\<lparr>services := services d @ [\<lparr>service_id = x, name = n\<rparr>], next_id := k\<rparr>) x n"
  by (simp add: resolves_def)

lemma resolves_upsert [simp]:
  "resolves (db_upsert_hotels_services h s t d) s' n = resolves d s' n"
  by (simp add: resolves_def db_upsert_hotels_services_def)

lemma services_upsert [simp]:
  "services (db_upsert_hotels_services h s t d) = services d"
  by (simp add: db_upsert_hotels_services_def)

lemma next_id_upsert [simp]:
  "next_id (db_upsert_hotels_services h s t d) = next_id d"
  by (simp add: db_upsert_hotels_services_def)

lemma sent_inv_step:
  assumes inv: "sent_inv ident names pre c0 k0 (cs, w)"
    and i: "i < length cs"
    and adv: "advance ident (cs ! i) w = (c', w')"
  shows "sent_inv ident names pre c0 k0 (cs[i := c'], w')"
proof -
  from inv have names: "map chain_service cs = names" and c0: "c0 \<le> clock w"
    and ok: "\<And>c. c \<in> set cs \<Longrightarrow> pending_ok (db w) ident (upserts_of (sent pre w)) c"
    by (simp_all add: sent_inv_def)
  obtain n st where ci: "cs ! i = Chain n st" by (cases "cs ! i")
  from i have mem: "cs ! i \<in> set cs" by simp
  from names i ci have n: "n \<in> set names"
    by (metis chain.sel(1) length_map nth_map nth_mem)
  note step = sent_inv_transition [OF inv i, where c' = c' and w' = w']
  show ?thesis
  proof (cases st)
    case SelectPending
    from advance_select_cases [OF adv [unfolded ci SelectPending]]
    have w': "clock w' = Suc (clock w)" "db w' = db w"
      and out: "(\<exists>x xs. db_select_services_eq n (db w) = x # xs \<and>
             c' = Chain n (UpsertPending x (Suc (clock w))) \<and>
             issued w' = issued w @ [UpsertHotelsServices ident x (Suc (clock w))]) \<or>
          (c' = Chain n InsertPending \<and> issued w' = issued w @ [InsertServices n])"
      by auto
    from out show ?thesis
    proof
      assume "\<exists>x xs. db_select_services_eq n (db w) = x # xs \<and>
             c' = Chain n (UpsertPending x (Suc (clock w))) \<and>
             issued w' = issued w @ [UpsertHotelsServices ident x (Suc (clock w))]"
      then obtain x xs where found: "db_select_services_eq n (db w) = x # xs"
        and c': "c' = Chain n (UpsertPending x (Suc (clock w)))"
        and iss: "issued w' = issued w @ [UpsertHotelsServices ident x (Suc (clock w))]"
        by blast
      from found have res: "resolves (db w) x n" by (rule select_found_resolves)
      show ?thesis
      proof (rule step [where qs = "[UpsertHotelsServices ident x (Suc (clock w))]"])
        show "chain_service c' = chain_service (cs ! i)" by (simp add: c' ci)
        show "clock w \<le> clock w'" by (simp add: w')
        show "issued w' = issued w @ [UpsertHotelsServices ident x (Suc (clock w))]" by (rule iss)
        show "list_all (chain_request ident names) [UpsertHotelsServices ident x (Suc (clock w))]"
          by simp
        show "resolves (db w') s m" if "resolves (db w) s m" for s m using that by (simp add: w')
        show "length (upserts_of [UpsertHotelsServices ident x (Suc (clock w))]) +
            length (inserts_of [UpsertHotelsServices ident x (Suc (clock w))]) +
            (if at_upsert (cs ! i) then 1 else 0) + (if at_insert (cs ! i) then 1 else 0) +
            length (services (db w)) =
            (if at_upsert c' then 1 else 0) + (if at_insert c' then 1 else 0) +
            length (services (db w'))"
          by (simp add: c' ci SelectPending w')
        show "pending_ok (db w') ident
            (upserts_of (sent pre w) @ upserts_of [UpsertHotelsServices ident x (Suc (clock w))]) c'"
          using res by (simp add: c' w')
        show "upsert_ok (db w') ident names c0 (clock w') u"
          if "u \<in> set (upserts_of [UpsertHotelsServices ident x (Suc (clock w))])" for u
          using that res n c0 by (auto simp: upsert_ok_def w')
      qed
    next
      assume a: "c' = Chain n InsertPending \<and> issued w' = issued w @ [InsertServices n]"
      show ?thesis
      proof (rule step [where qs = "[InsertServices n]"])
        show "chain_service c' = chain_service (cs ! i)" using a by (simp add: ci)
        show "clock w \<le> clock w'" by (simp add: w')
        show "issued w' = issued w @ [InsertServices n]" using a by simp
        show "list_all (chain_request ident names) [InsertServices n]" using n by simp
        show "resolves (db w') s m" if "resolves (db w) s m" for s m using that by (simp add: w')
        show "length (upserts_of [InsertServices n]) + length (inserts_of [InsertServices n]) +
            (if at_upsert (cs ! i) then 1 else 0) + (if at_insert (cs ! i) then 1 else 0) +
            length (services (db w)) =
            (if at_upsert c' then 1 else 0) + (if at_insert c' then 1 else 0) +
            length (services (db w'))"
          using a by (simp add: ci SelectPending w')
        show "pending_ok (db w') ident
            (upserts_of (sent pre w) @ upserts_of [InsertServices n]) c'"
          using a by simp
        show "upsert_ok (db w') ident names c0 (clock w') u"
          if "u \<in> set (upserts_of [InsertServices n])" for u
          using that by simp
      qed
    qed
  next
    case InsertPending
    let ?x = "next_id (db w)"
    let ?d = "(db w)\<lparr>services := services (db w) @ [\<lparr>service_id = ?x, name = n\<rparr>],
                     next_id := Suc ?x\<rparr>"
    from advance_insert_cases [OF adv [unfolded ci InsertPending]]
    have w': "clock w' = Suc (clock w)"
      and out: "(c' = Chain n (UpsertPending ?x (Suc (clock w))) \<and> db w' = ?d \<and>
           issued w' = issued w @ [UpsertHotelsServices ident ?x (Suc (clock w))]) \<or>
          (c' = Chain n Fulfilled \<and> db w' = db w \<and> issued w' = issued w)"
      by auto
    from out show ?thesis
    proof
      assume a: "c' = Chain n (UpsertPending ?x (Suc (clock w))) \<and> db w' = ?d \<and>
           issued w' = issued w @ [UpsertHotelsServices ident ?x (Suc (clock w))]"
      have res: "resolves (db w') ?x n" using a by (simp add: resolves_new)
      show ?thesis
      proof (rule step [where qs = "[UpsertHotelsServices ident ?x (Suc (clock w))]"])
        show "chain_service c' = chain_service (cs ! i)" using a by (simp add: ci)
        show "clock w \<le> clock w'" by (simp add: w')
        show "issued w' = issued w @ [UpsertHotelsServices ident ?x (Suc (clock w))]"
          using a by simp
        show "list_all (chain_request ident names) [UpsertHotelsServices ident ?x (Suc (clock w))]"
          by simp
        show "resolves (db w') s m" if "resolves (db w) s m" for s m
          using that a by (simp add: resolves_inserted)
        show "length (upserts_of [UpsertHotelsServices ident ?x (Suc (clock w))]) +
            length (inserts_of [UpsertHotelsServices ident ?x (Suc (clock w))]) +
            (if at_upsert (cs ! i) then 1 else 0) + (if at_insert (cs ! i) then 1 else 0) +
            length (services (db w)) =
            (if at_upsert c' then 1 else 0) + (if at_insert c' then 1 else 0) +
            length (services (db w'))"
          using a by (simp add: ci InsertPending)
        show "pending_ok (db w') ident
            (upserts_of (sent pre w) @ upserts_of [UpsertHotelsServices ident ?x (Suc (clock w))]) c'"
          using res a by simp
        show "upsert_ok (db w') ident names c0 (clock w') u"
          if "u \<in> set (upserts_of [UpsertHotelsServices ident ?x (Suc (clock w))])" for u
          using that res n c0 by (auto simp: upsert_ok_def w')
      qed
    next
      assume a: "c' = Chain n Fulfilled \<and> db w' = db w \<and> issued w' = issued w"
      show ?thesis
      proof (rule step [where qs = "[]"])
        show "chain_service c' = chain_service (cs ! i)" using a by (simp add: ci)
        show "clock w \<le> clock w'" by (simp add: w')
        show "issued w' = issued w @ []" using a by simp
        show "list_all (chain_request ident names) []" by simp
        show "resolves (db w') s m" if "resolves (db w) s m" for s m using that a by simp
        show "length (upserts_of []) + length (inserts_of []) +
            (if at_upsert (cs ! i) then 1 else 0) + (if at_insert (cs ! i) then 1 else 0) +
            length (services (db w)) =
            (if at_upsert c' then 1 else 0) + (if at_insert c' then 1 else 0) +
            length (services (db w'))"
          using a by (simp add: ci InsertPending)
        show "pending_ok (db w') ident (upserts_of (sent pre w) @ upserts_of []) c'"
          using a by simp
        show "upsert_ok (db w') ident names c0 (clock w') u" if "u \<in> set (upserts_of [])" for u
          using that by simp
      qed
    qed
  next
    case (UpsertPending s t)
    from advance_upsert_cases [OF adv [unfolded ci UpsertPending]]
    have c': "c' = Chain n Fulfilled" and w': "clock w' = Suc (clock w)" "issued w' = issued w"
      and d: "db w' = db_upsert_hotels_services ident s t (db w) \<or> db w' = db w"
      by auto
    from d have res: "resolves (db w') s' m = resolves (db w) s' m" for s' m by auto
    from d have srv: "services (db w') = services (db w)" by auto
    show ?thesis
    proof (rule step [where qs = "[]"])
      show "chain_service c' = chain_service (cs ! i)" by (simp add: c' ci)
      show "clock w \<le> clock w'" by (simp add: w')
      show "issued w' = issued w @ []" by (simp add: w')
      show "list_all (chain_request ident names) []" by simp
      show "resolves (db w') s' m" if "resolves (db w) s' m" for s' m using that by (simp add: res)
      show "length (upserts_of []) + length (inserts_of []) +
            (if at_upsert (cs ! i) then 1 else 0) + (if at_insert (cs ! i) then 1 else 0) +
            length (services (db w)) =
            (if at_upsert c' then 1 else 0) + (if at_insert c' then 1 else 0) +
            length (services (db w'))"
        by (simp add: c' ci UpsertPending srv)
      show "pending_ok (db w') ident (upserts_of (sent pre w) @ upserts_of []) c'"
        by (simp add: c')
      show "upsert_ok (db w') ident names c0 (clock w') u" if "u \<in> set (upserts_of [])" for u
        using that by simp
    qed
  next
    case Fulfilled
    with adv ci have "c' = cs ! i" and "w' = w" by simp_all
    with inv show ?thesis by simp
  next
    case (Unhandled e)
    with ok [OF mem] ci show ?thesis by simp
  qed
qed

section \<open>The chains while the store serves every request\<close>

lemma refresh_keeps_keys:
  "map (\<lambda>a. (hs_hotel_id a, hs_service_id a))
       (map (\<lambda>a. if P a then a\<lparr>hs_updated_at := t\<rparr> else a) xs) =
   map (\<lambda>a. (hs_hotel_id a, hs_service_id a)) xs"
  by (induction xs) auto

lemma pairs_upsert [simp]:
  "pairs (db_upsert_hotels_services h s t d) = insert (h, s) (pairs d)"
proof (cases "\<exists>a \<in> set (hotels_services d). hs_hotel_id a = h \<and> hs_service_id a = s")
  case True
  then have "(h, s) \<in> pairs d"
    by (force simp: pairs_def)
  moreover have "pairs (db_upsert_hotels_services h s t d) = pairs d"
    using refresh_keeps_keys [of "\<lambda>a. hs_hotel_id a = h \<and> hs_service_id a = s" t "hotels_services d"]
    by (simp only: db_upsert_hotels_services_def if_P [OF True]) (simp add: pairs_def del: map_map)
  ultimately show ?thesis by auto
next
  case False
  show ?thesis
    by (simp only: db_upsert_hotels_services_def if_not_P [OF False]) (simp add: pairs_def)
qed

lemma pairs_inserted [simp]:
  "pairs (d\<lparr>services := xs, next_id := k\<rparr>) = pairs d"
  by (simp add: pairs_def)

lemma wf_services_upsert [simp]:
  "wf_services (db_upsert_hotels_services h s t d) = wf_services d"
  by (simp add: wf_services_def)

lemma wf_services_inserted:
  assumes "wf_services d" and "\<forall>r \<in> set (services d). name r \<noteq> n"
  shows "wf_services (d\<lparr>services := services d @ [\<lparr>service_id = next_id d, name = n\<rparr>],
                        next_id := Suc (next_id d)\<rparr>)"
  using assms by (auto simp: wf_services_def list_all_iff less_Suc_eq)

lemma association_names_pairs:
  "association_names d h = {n. \<exists>s. (h, s) \<in> pairs d \<and> resolves d s n}"
  by (auto simp: association_names_def pairs_def resolves_def image_iff)

lemma resolves_unique:
  "wf_services d \<Longrightarrow> resolves d s n \<Longrightarrow> resolves d s m \<Longrightarrow> n = m"
  by (auto simp: wf_services_def resolves_def distinct_map inj_on_def)

lemma resolves_unique_id:
  "wf_services d \<Longrightarrow> resolves d s n \<Longrightarrow> resolves d s' n \<Longrightarrow> s = s'"
  by (auto simp: wf_services_def resolves_def distinct_map inj_on_def)

lemma in_set_update_or_nth:
  "c \<in> set xs \<Longrightarrow> c = xs ! i \<or> c \<in> set (xs[i := x])"
  by (metis in_set_conv_nth length_list_update nth_list_update_neq)

lemma chain_ok_mono:
  assumes ok: "chain_ok d ident i0 ups c"
    and res: "\<And>s n. resolves d s n \<Longrightarrow> resolves d' s n"
    and rows: "\<And>r. r \<in> set (services d') \<Longrightarrow> r \<in> set (services d) \<or> i0 \<le> service_id r"
    and sub: "set ups \<subseteq> set ups'"
  shows "chain_ok d' ident i0 ups' c"
proof (cases c)
  case (Chain n st)
  show ?thesis
  proof (cases st)
    case InsertPending
    with ok Chain rows show ?thesis by auto
  next
    case (UpsertPending s t)
    with ok Chain res sub show ?thesis by auto
  next
    case Fulfilled
    with ok Chain obtain s t where "resolves d s n" and "(ident, s, t) \<in> set ups" by auto
    with res sub have "resolves d' s n \<and> (ident, s, t) \<in> set ups'" by auto
    with Chain Fulfilled show ?thesis by auto
  qed (use ok Chain in simp_all)
qed

lemma served_inv_transition:
  assumes inv: "served_inv ident names pre i0 (cs, w)" and i: "i < length cs"
    and ff': "faults w' = []" and wf': "wf_services (db w')"
    and svc: "chain_service c' = chain_service (cs ! i)"
    and nid: "next_id (db w) \<le> next_id (db w')"
    and iss: "issued w' = issued w @ qs"
    and mono: "\<And>s n. resolves (db w) s n \<Longrightarrow> resolves (db w') s n"
    and rows: "\<And>r. r \<in> set (services (db w')) \<Longrightarrow>
        r \<in> set (services (db w)) \<or>
        (i0 \<le> service_id r \<and> (\<exists>t. (ident, service_id r, t) \<in> set (upserts_of qs)))"
    and prs_sub: "pairs (db w) \<subseteq> pairs (db w')"
    and prs_new: "\<And>s. (ident, s) \<in> pairs (db w') \<Longrightarrow>
        (ident, s) \<in> pairs (db w) \<or> (\<exists>n \<in> set names. resolves (db w') s n)"
    and okc: "chain_ok (db w') ident i0 (upserts_of (sent pre w) @ upserts_of qs) c'"
    and apc: "\<And>u. u \<in> set (upserts_of qs) \<Longrightarrow> applied_or_pending (db w') ident (cs[i := c']) u"
    and apold: "\<And>s t. chain_stage (cs ! i) = UpsertPending s t \<Longrightarrow> (ident, s) \<in> pairs (db w')"
  shows "served_inv ident names pre i0 (cs[i := c'], w')"
proof -
  from inv have names: "map chain_service cs = names" and i0: "i0 \<le> next_id (db w)"
    and len: "length pre \<le> length (issued w)"
    and ok: "\<And>c. c \<in> set cs \<Longrightarrow> chain_ok (db w) ident i0 (upserts_of (sent pre w)) c"
    and ap: "\<And>u. u \<in> set (upserts_of (sent pre w)) \<Longrightarrow> applied_or_pending (db w) ident cs u"
    and new: "\<And>r. r \<in> set (services (db w)) \<Longrightarrow> i0 \<le> service_id r \<Longrightarrow>
        \<exists>t. (ident, service_id r, t) \<in> set (upserts_of (sent pre w))"
    and prs: "\<And>s. (ident, s) \<in> pairs (db w) \<Longrightarrow> \<exists>n \<in> set names. resolves (db w) s n"
    by (simp_all add: served_inv_def)
  from sent_append [OF len iss]
  have s': "sent pre w' = sent pre w @ qs" and len': "length pre \<le> length (issued w')"
    by simp_all
  have names': "map chain_service (cs[i := c']) = names"
    using names svc i by (metis list_update_id map_update)
  have ok': "chain_ok (db w') ident i0 (upserts_of (sent pre w')) c"
    if "c \<in> set (cs[i := c'])" for c
  proof -
    from that consider "c = c'" | "c \<in> set cs" by (auto dest!: set_update_cases)
    then show ?thesis
    proof cases
      case 1
      with okc show ?thesis by (simp add: s' upserts_of_append)
    next
      case 2
      show ?thesis
      proof (rule chain_ok_mono [OF ok [OF 2]])
        show "resolves (db w') s n" if "resolves (db w) s n" for s n using that by (rule mono)
        show "r \<in> set (services (db w)) \<or> i0 \<le> service_id r"
          if "r \<in> set (services (db w'))" for r
          using rows [OF that] by auto
        show "set (upserts_of (sent pre w)) \<subseteq> set (upserts_of (sent pre w'))"
          by (auto simp: s' upserts_of_append)
      qed
    qed
  qed
  have ap': "applied_or_pending (db w') ident (cs[i := c']) u"
    if "u \<in> set (upserts_of (sent pre w'))" for u
  proof -
    from that consider "u \<in> set (upserts_of qs)" | "u \<in> set (upserts_of (sent pre w))"
      by (auto simp: s' upserts_of_append)
    then show ?thesis
    proof cases
      case 1
      then show ?thesis by (rule apc)
    next
      case 2
      obtain h s t where u: "u = (h, s, t)" by (cases u)
      from ap [OF 2] u consider "(ident, s) \<in> pairs (db w)"
        | c where "c \<in> set cs" "chain_stage c = UpsertPending s t"
        by (auto simp: applied_or_pending_def)
      then show ?thesis
      proof cases
        case 1
        with prs_sub u show ?thesis by (auto simp: applied_or_pending_def)
      next
        case 2
        from in_set_update_or_nth [OF 2(1), of i c']
        show ?thesis
        proof
          assume "c = cs ! i"
          with 2 apold have "(ident, s) \<in> pairs (db w')" by simp
          with u show ?thesis by (simp add: applied_or_pending_def)
        next
          assume "c \<in> set (cs[i := c'])"
          with 2 u show ?thesis by (auto simp: applied_or_pending_def)
        qed
      qed
    qed
  qed
  have new': "\<exists>t. (ident, service_id r, t) \<in> set (upserts_of (sent pre w'))"
    if "r \<in> set (services (db w'))" "i0 \<le> service_id r" for r
    using rows [OF that(1)] new [of r] that(2) by (auto simp: s' upserts_of_append)
  have prs': "\<exists>n \<in> set names. resolves (db w') s n" if "(ident, s) \<in> pairs (db w')" for s
    using prs_new [OF that] prs [of s] mono by blast
  from ff' wf' names' i0 nid len' ok' ap' new' prs'
  show ?thesis
    unfolding served_inv_def prod.case
    by (intro conjI ballI allI impI) auto
qed

lemma pending_applied:
  "c \<in> set cs \<Longrightarrow> chain_stage c = UpsertPending s t \<Longrightarrow>
     applied_or_pending d ident cs (h, s, t)"
  by (auto simp: applied_or_pending_def)

lemma served_inv_step:
  assumes inv: "served_inv ident names pre i0 (cs, w)"
    and i: "i < length cs"
    and adv: "advance ident (cs ! i) w = (c', w')"
  shows "served_inv ident names pre i0 (cs[i := c'], w')"
proof -
  from inv have ff: "faults w = []" and wf: "wf_services (db w)"
    and names: "map chain_service cs = names" and i0: "i0 \<le> next_id (db w)"
    and ok: "\<And>c. c \<in> set cs \<Longrightarrow> chain_ok (db w) ident i0 (upserts_of (sent pre w)) c"
    and new: "\<And>r. r \<in> set (services (db w)) \<Longrightarrow> i0 \<le> service_id r \<Longrightarrow>
        \<exists>t. (ident, service_id r, t) \<in> set (upserts_of (sent pre w))"
    by (simp_all add: served_inv_def)
  obtain n st where ci: "cs ! i = Chain n st" by (cases "cs ! i")
  from i have mem: "cs ! i \<in> set cs" by simp
  from names i ci have n: "n \<in> set names"
    by (metis chain.sel(1) length_map nth_map nth_mem)
  from i have c'_mem: "c' \<in> set (cs[i := c'])" by (rule set_update_memI)
  note step = served_inv_transition [OF inv i, where c' = c' and w' = w']
  show ?thesis
  proof (cases st)
    case SelectPending
    from advance_select_cases [OF adv [unfolded ci SelectPending]] ff
    have w': "faults w' = []" "db w' = db w"
      and out: "(\<exists>x xs. db_select_services_eq n (db w) = x # xs \<and>
             c' = Chain n (UpsertPending x (Suc (clock w))) \<and>
             issued w' = issued w @ [UpsertHotelsServices ident x (Suc (clock w))]) \<or>
          (c' = Chain n InsertPending \<and> issued w' = issued w @ [InsertServices n] \<and>
             db_select_services_eq n (db w) = [])"
      by auto
    from out show ?thesis
    proof
      assume "\<exists>x xs. db_select_services_eq n (db w) = x # xs \<and>
             c' = Chain n (UpsertPending x (Suc (clock w))) \<and>
             issued w' = issued w @ [UpsertHotelsServices ident x (Suc (clock w))]"
      then obtain x xs where found: "db_select_services_eq n (db w) = x # xs"
        and c': "c' = Chain n (UpsertPending x (Suc (clock w)))"
        and iss: "issued w' = issued w @ [UpsertHotelsServices ident x (Suc (clock w))]"
        by blast
      from found have res: "resolves (db w) x n" by (rule select_found_resolves)
      show ?thesis
      proof (rule step [where qs = "[UpsertHotelsServices ident x (Suc (clock w))]"])
        show "faults w' = []" by (rule w')
        show "wf_services (db w')" using wf by (simp add: w')
        show "chain_service c' = chain_service (cs ! i)" by (simp add: c' ci)
        show "next_id (db w) \<le> next_id (db w')" by (simp add: w')
        show "issued w' = issued w @ [UpsertHotelsServices ident x (Suc (clock w))]" by (rule iss)
        show "resolves (db w') s m" if "resolves (db w) s m" for s m using that by (simp add: w')
        show "r \<in> set (services (db w)) \<or>
            (i0 \<le> service_id r \<and>
             (\<exists>t. (ident, service_id r, t) \<in>
                set (upserts_of [UpsertHotelsServices ident x (Suc (clock w))])))"
          if "r \<in> set (services (db w'))" for r using that by (simp add: w')
        show "pairs (db w) \<subseteq> pairs (db w')" by (simp add: w')
        show "(ident, s) \<in> pairs (db w) \<or> (\<exists>m \<in> set names. resolves (db w') s m)"
          if "(ident, s) \<in> pairs (db w')" for s using that by (simp add: w')
        show "chain_ok (db w') ident i0
            (upserts_of (sent pre w) @ upserts_of [UpsertHotelsServices ident x (Suc (clock w))]) c'"
          using res by (simp add: c' w')
        show "applied_or_pending (db w') ident (cs[i := c']) u"
          if "u \<in> set (upserts_of [UpsertHotelsServices ident x (Suc (clock w))])" for u
          using that pending_applied [OF c'_mem, of x "Suc (clock w)"] c' by simp
        show "(ident, s) \<in> pairs (db w')" if "chain_stage (cs ! i) = UpsertPending s t" for s t
          using that by (simp add: ci SelectPending)
      qed
    next
      assume a: "c' = Chain n InsertPending \<and> issued w' = issued w @ [InsertServices n] \<and>
             db_select_services_eq n (db w) = []"
      then have absent: "\<forall>r \<in> set (services (db w)). name r \<noteq> n"
        using select_missing_absent [of n "db w"] by blast
      show ?thesis
      proof (rule step [where qs = "[InsertServices n]"])
        show "faults w' = []" by (rule w')
        show "wf_services (db w')" using wf by (simp add: w')
        show "chain_service c' = chain_service (cs ! i)" using a by (simp add: ci)
        show "next_id (db w) \<le> next_id (db w')" by (simp add: w')
        show "issued w' = issued w @ [InsertServices n]" using a by simp
        show "resolves (db w') s m" if "resolves (db w) s m" for s m using that by (simp add: w')
        show "r \<in> set (services (db w)) \<or>
            (i0 \<le> service_id r \<and>
             (\<exists>t. (ident, service_id r, t) \<in> set (upserts_of [InsertServices n])))"
          if "r \<in> set (services (db w'))" for r using that by (simp add: w')
        show "pairs (db w) \<subseteq> pairs (db w')" by (simp add: w')
        show "(ident, s) \<in> pairs (db w) \<or> (\<exists>m \<in> set names. resolves (db w') s m)"
          if "(ident, s) \<in> pairs (db w')" for s using that by (simp add: w')
        show "chain_ok (db w') ident i0
            (upserts_of (sent pre w) @ upserts_of [InsertServices n]) c'"
          using a absent by (simp add: w')
        show "applied_or_pending (db w') ident (cs[i := c']) u"
          if "u \<in> set (upserts_of [InsertServices n])" for u
          using that by simp
        show "(ident, s) \<in> pairs (db w')" if "chain_stage (cs ! i) = UpsertPending s t" for s t
          using that by (simp add: ci SelectPending)
      qed
    qed
  next
    case InsertPending
    let ?x = "next_id (db w)"
    let ?d = "(db w)\<lparr>services := services (db w) @ [\<lparr>service_id = ?x, name = n\<rparr>],
                     next_id := Suc ?x\<rparr>"
    from advance_insert_cases [OF adv [unfolded ci InsertPending]] ff
    have w': "faults w' = []"
      and out: "((\<forall>r \<in> set (services (db w)). name r \<noteq> n) \<and>
           c' = Chain n (UpsertPending ?x (Suc (clock w))) \<and> db w' = ?d \<and>
           issued w' = issued w @ [UpsertHotelsServices ident ?x (Suc (clock w))]) \<or>
          (c' = Chain n Fulfilled \<and> db w' = db w \<and> issued w' = issued w \<and>
           (\<exists>r \<in> set (services (db w)). name r = n))"
      by auto
    from out show ?thesis
    proof
      assume a: "(\<forall>r \<in> set (services (db w)). name r \<noteq> n) \<and>
           c' = Chain n (UpsertPending ?x (Suc (clock w))) \<and> db w' = ?d \<and>
           issued w' = issued w @ [UpsertHotelsServices ident ?x (Suc (clock w))]"
      have res: "resolves (db w') ?x n" using a by (simp add: resolves_new)
      show ?thesis
      proof (rule step [where qs = "[UpsertHotelsServices ident ?x (Suc (clock w))]"])
        show "faults w' = []" by (rule w')
        show "wf_services (db w')" using wf a by (simp add: wf_services_inserted)
        show "chain_service c' = chain_service (cs ! i)" using a by (simp add: ci)
        show "next_id (db w) \<le> next_id (db w')" using a by simp
        show "issued w' = issued w @ [UpsertHotelsServices ident ?x (Suc (clock w))]"
          using a by simp
        show "resolves (db w') s m" if "resolves (db w) s m" for s m
          using that a by (simp add: resolves_inserted)
        show "r \<in> set (services (db w)) \<or>
            (i0 \<le> service_id r \<and>
             (\<exists>t. (ident, service_id r, t) \<in>
                set (upserts_of [UpsertHotelsServices ident ?x (Suc (clock w))])))"
          if "r \<in> set (services (db w'))" for r using that a i0 by auto
        show "pairs (db w) \<subseteq> pairs (db w')" using a by simp
        show "(ident, s) \<in> pairs (db w) \<or> (\<exists>m \<in> set names. resolves (db w') s m)"
          if "(ident, s) \<in> pairs (db w')" for s using that a by simp
        show "chain_ok (db w') ident i0
            (upserts_of (sent pre w) @ upserts_of [UpsertHotelsServices ident ?x (Suc (clock w))]) c'"
          using res a by simp
        show "applied_or_pending (db w') ident (cs[i := c']) u"
          if "u \<in> set (upserts_of [UpsertHotelsServices ident ?x (Suc (clock w))])" for u
          using that pending_applied [OF c'_mem, of ?x "Suc (clock w)"] a by simp
        show "(ident, s) \<in> pairs (db w')" if "chain_stage (cs ! i) = UpsertPending s t" for s t
          using that by (simp add: ci InsertPending)
      qed
    next
      assume a: "c' = Chain n Fulfilled \<and> db w' = db w \<and> issued w' = issued w \<and>
           (\<exists>r \<in> set (services (db w)). name r = n)"
      then obtain r where r: "r \<in> set (services (db w))" "name r = n" by blast
      from ok [OF mem] ci InsertPending r have "i0 \<le> service_id r" by simp
      from new [OF r(1) this] obtain t
        where "(ident, service_id r, t) \<in> set (upserts_of (sent pre w))" by blast
      moreover from r have "resolves (db w) (service_id r) n" by (auto simp: resolves_def)
      ultimately have okc: "chain_ok (db w) ident i0 (upserts_of (sent pre w)) (Chain n Fulfilled)"
        by auto
      show ?thesis
      proof (rule step [where qs = "[]"])
        show "faults w' = []" by (rule w')
        show "wf_services (db w')" using wf a by simp
        show "chain_service c' = chain_service (cs ! i)" using a by (simp add: ci)
        show "next_id (db w) \<le> next_id (db w')" using a by simp
        show "issued w' = issued w @ []" using a by simp
        show "resolves (db w') s m" if "resolves (db w) s m" for s m using that a by simp
        show "r \<in> set (services (db w)) \<or>
            (i0 \<le> service_id r \<and> (\<exists>t. (ident, service_id r, t) \<in> set (upserts_of [])))"
          if "r \<in> set (services (db w'))" for r using that a by simp
        show "pairs (db w) \<subseteq> pairs (db w')" using a by simp
        show "(ident, s) \<in> pairs (db w) \<or> (\<exists>m \<in> set names. resolves (db w') s m)"
          if "(ident, s) \<in> pairs (db w')" for s using that a by simp
        show "chain_ok (db w') ident i0 (upserts_of (sent pre w) @ upserts_of []) c'"
          using okc a by simp
        show "applied_or_pending (db w') ident (cs[i := c']) u" if "u \<in> set (upserts_of [])" for u
          using that by simp
        show "(ident, s) \<in> pairs (db w')" if "chain_stage (cs ! i) = UpsertPending s t" for s t
          using that by (simp add: ci InsertPending)
      qed
    qed
  next
    case (UpsertPending s t)
    from advance_upsert_cases [OF adv [unfolded ci UpsertPending]] ff
    have c': "c' = Chain n Fulfilled" and w': "faults w' = []" "issued w' = issued w"
      and d: "db w' = db_upsert_hotels_services ident s t (db w)"
      by auto
    from ok [OF mem] ci UpsertPending
    have res: "resolves (db w) s n" and inups: "(ident, s, t) \<in> set (upserts_of (sent pre w))"
      by simp_all
    show ?thesis
    proof (rule step [where qs = "[]"])
      show "faults w' = []" by (rule w')
      show "wf_services (db w')" using wf by (simp add: d)
      show "chain_service c' = chain_service (cs ! i)" by (simp add: c' ci)
      show "next_id (db w) \<le> next_id (db w')" by (simp add: d)
      show "issued w' = issued w @ []" by (simp add: w')
      show "resolves (db w') s' m" if "resolves (db w) s' m" for s' m using that by (simp add: d)
      show "r \<in> set (services (db w)) \<or>
            (i0 \<le> service_id r \<and> (\<exists>t. (ident, service_id r, t) \<in> set (upserts_of [])))"
        if "r \<in> set (services (db w'))" for r using that by (simp add: d)
      show "pairs (db w) \<subseteq> pairs (db w')" by (auto simp: d)
      show "(ident, s') \<in> pairs (db w) \<or> (\<exists>m \<in> set names. resolves (db w') s' m)"
        if "(ident, s') \<in> pairs (db w')" for s' using that res n by (auto simp: d)
      show "chain_ok (db w') ident i0 (upserts_of (sent pre w) @ upserts_of []) c'"
        using res inups by (auto simp: c' d)
      show "applied_or_pending (db w') ident (cs[i := c']) u" if "u \<in> set (upserts_of [])" for u
        using that by simp
      show "(ident, s') \<in> pairs (db w')" if "chain_stage (cs ! i) = UpsertPending s' t'" for s' t'
        using that by (simp add: ci UpsertPending d)
    qed
  next
    case Fulfilled
    with adv ci have "c' = cs ! i" and "w' = w" by simp_all
    with inv show ?thesis by simp
  next
    case (Unhandled e)
    with ok [OF mem] ci show ?thesis by simp
  qed
qed

section \<open>Runs of the chains\<close>

lemma map_services_eq:
  "map_services names w =
     ((map (\<lambda>service. Undefined) names, map (\<lambda>service. Chain service SelectPending) names),
      w\<lparr>issued := issued w @ map SelectServicesEq names\<rparr>)"
  by (induction names arbitrary: w) (simp_all add: service_callback_def launch_def)

lemma promise_all_undefined: "promise_all (map (\<lambda>service. Undefined) names) = []"
  by (induction names) (simp_all add: promise_all_def)

lemma advance_logged: "advance ident c w = (c', w') \<Longrightarrow> logged w' = logged w"
proof (cases c)
  case (Chain n st)
  assume a: "advance ident c w = (c', w')"
  show ?thesis
  proof (cases st)
    case SelectPending
    with a Chain advance_select_cases [of ident n w c' w'] show ?thesis by simp
  next
    case InsertPending
    with a Chain advance_insert_cases [of ident n w c' w'] show ?thesis by simp
  next
    case (UpsertPending s t)
    with a Chain advance_upsert_cases [of ident n s t w c' w'] show ?thesis by simp
  qed (use a Chain in simp_all)
qed

lemma run_invariant:
  assumes "P (cs, w)"
    and "\<And>cs w i c w1. P (cs, w) \<Longrightarrow> i < length cs \<Longrightarrow> advance ident (cs ! i) w = (c, w1) \<Longrightarrow>
           P (cs[i := c], w1)"
  shows "P (run ident sched (cs, w))"
  using assms(1)
proof (induction sched arbitrary: cs w)
  case Nil
  then show ?case by simp
next
  case (Cons i sched)
  show ?case
  proof (cases "i < length cs")
    case True
    obtain c w1 where a: "advance ident (cs ! i) w = (c, w1)"
      by (cases "advance ident (cs ! i) w")
    from assms(2) [OF Cons.prems True a] have "P (cs[i := c], w1)" .
    from Cons.IH [OF this] True a show ?thesis by simp
  next
    case False
    with Cons.IH [OF Cons.prems] show ?thesis by simp
  qed
qed

lemma run_logged: "logged (snd (run ident sched (cs, w))) = logged w"
  by (rule run_invariant [where P = "\<lambda>sys. logged (snd sys) = logged w"])
     (auto dest: advance_logged)

lemma run_sent_inv:
  "sent_inv ident names pre c0 k0 (cs, w) \<Longrightarrow>
     sent_inv ident names pre c0 k0 (run ident sched (cs, w))"
  by (rule run_invariant) (auto intro: sent_inv_step)

lemma run_served_inv:
  "served_inv ident names pre i0 (cs, w) \<Longrightarrow>
     served_inv ident names pre i0 (run ident sched (cs, w))"
  by (rule run_invariant) (auto intro: served_inv_step)

lemma advance_resolves:
  assumes "advance ident c w = (c', w')" and "resolves (db w) s m"
  shows "resolves (db w') s m"
proof (cases c)
  case (Chain n st)
  show ?thesis
  proof (cases st)
    case SelectPending
    with assms Chain advance_select_cases [of ident n w c' w'] show ?thesis by simp
  next
    case InsertPending
    with assms Chain advance_insert_cases [of ident n w c' w'] show ?thesis
      by (auto simp: resolves_inserted)
  next
    case (UpsertPending s' t)
    with assms Chain advance_upsert_cases [of ident n s' t w c' w'] show ?thesis by auto
  qed (use assms Chain in simp_all)
qed

lemma run_resolves:
  "resolves (db w) s m \<Longrightarrow> resolves (db (snd (run ident sched (cs, w)))) s m"
  by (rule run_invariant [where P = "\<lambda>sys. resolves (db (snd sys)) s m"])
     (auto dest: advance_resolves)

text \<open>The non-delete branch up to its return, whatever the environment does.\<close>

lemma reconcile_world:
  assumes "doc_services doc = Some names"
  obtains w2 where
    "reconcile ident doc w =
       \<lparr>hr_world = w2\<lparr>issued := issued w2 @ map SelectServicesEq names\<rparr>,
        hr_chains = map (\<lambda>service. Chain service SelectPending) names,
        hr_awaited = [], hr_thrown = None\<rparr>"
    "issued w2 = issued w @ [UpsertHotels ident (clock w), DeleteHotelsServices ident]"
    "clock w2 = Suc (Suc (clock w))" "logged w2 = logged w"
    "services (db w2) = services (db w)" "next_id (db w2) = next_id (db w)"
    "faults w = [] \<Longrightarrow> faults w2 = [] \<and>
       db w2 = db_delete_hotels_services ident (db_upsert_hotels ident (clock w) (db w))"
proof -
  obtain r1 w1 where 1: "upsert_hotels ident (clock w) w = (Resolved r1, w1)"
    using perform_resolves [of "UpsertHotels ident (clock w)"
                               "\<lambda>d. (Success (), db_upsert_hotels ident (clock w) d)" w]
    by (cases "upsert_hotels ident (clock w) w") (auto simp: upsert_hotels_def)
  obtain r2 w2 where 2: "delete_hotels_services ident w1 = (Resolved r2, w2)"
    using perform_resolves [of "DeleteHotelsServices ident"
                               "\<lambda>d. (Success (), db_delete_hotels_services ident d)" w1]
    by (cases "delete_hotels_services ident w1") (auto simp: delete_hotels_services_def)
  have r: "reconcile ident doc w =
       \<lparr>hr_world = w2\<lparr>issued := issued w2 @ map SelectServicesEq names\<rparr>,
        hr_chains = map (\<lambda>service. Chain service SelectPending) names,
        hr_awaited = [], hr_thrown = None\<rparr>"
    using 1 2 assms by (simp add: reconcile_def map_services_eq promise_all_undefined)
  note e1 = perform_effect [OF 1 [unfolded upsert_hotels_def]]
  note e2 = perform_effect [OF 2 [unfolded delete_hotels_services_def]]
  note d1 = perform_db [OF 1 [unfolded upsert_hotels_def]]
  note d2 = perform_db [OF 2 [unfolded delete_hotels_services_def]]
  have iss: "issued w2 = issued w @ [UpsertHotels ident (clock w), DeleteHotelsServices ident]"
    using e1 e2 by simp
  have clk: "clock w2 = Suc (Suc (clock w))" and lg: "logged w2 = logged w"
    using e1 e2 by simp_all
  have srv: "services (db w2) = services (db w)" and nid: "next_id (db w2) = next_id (db w)"
    using d1 d2 by (auto simp: db_upsert_hotels_def db_delete_hotels_services_def)
  have ff: "faults w2 = [] \<and>
       db w2 = db_delete_hotels_services ident (db_upsert_hotels ident (clock w) (db w))"
    if "faults w = []"
    using that 1 2
    by (auto simp: upsert_hotels_def delete_hotels_services_def perform_cases)
  from r iss clk lg srv nid ff show ?thesis by (rule that)
qed

lemma at_upsert_pending [simp]:
  "filter at_upsert (map (\<lambda>service. Chain service SelectPending) names) = []"
  by (induction names) simp_all

lemma at_insert_pending [simp]:
  "filter at_insert (map (\<lambda>service. Chain service SelectPending) names) = []"
  by (induction names) simp_all

lemma pairs_delete [simp]: "(h, s) \<notin> pairs (db_delete_hotels_services h d)"
  by (auto simp: pairs_def db_delete_hotels_services_def)

lemma wf_services_delete [simp]:
  "wf_services (db_delete_hotels_services h d) = wf_services d"
  by (simp add: wf_services_def db_delete_hotels_services_def)

lemma wf_services_upsert_hotels [simp]:
  "wf_services (db_upsert_hotels h t d) = wf_services d"
  by (simp add: wf_services_def db_upsert_hotels_def)

lemma next_id_start [simp]:
  "next_id (db_delete_hotels_services h (db_upsert_hotels h' t d)) = next_id d"
  by (simp add: db_upsert_hotels_def db_delete_hotels_services_def)

lemma services_start [simp]:
  "services (db_delete_hotels_services h (db_upsert_hotels h' t d)) = services d"
  by (simp add: db_upsert_hotels_def db_delete_hotels_services_def)

lemma reconcile_sent_inv:
  assumes "doc_services doc = Some names"
  shows "sent_inv ident names (handler_sent ident names w) (clock w) (length (services (db w)))
           (hr_chains (reconcile ident doc w), hr_world (reconcile ident doc w))"
proof -
  from reconcile_world [OF assms, of ident w] obtain w2 where
    r: "reconcile ident doc w =
       \<lparr>hr_world = w2\<lparr>issued := issued w2 @ map SelectServicesEq names\<rparr>,
        hr_chains = map (\<lambda>service. Chain service SelectPending) names,
        hr_awaited = [], hr_thrown = None\<rparr>"
    and w2: "issued w2 = issued w @ [UpsertHotels ident (clock w), DeleteHotelsServices ident]"
      "clock w2 = Suc (Suc (clock w))" "services (db w2) = services (db w)"
    by metis
  show ?thesis
    unfolding r sent_inv_def prod.case
    by (simp add: w2 handler_sent_def sent_def comp_def list_all_iff)
qed

lemma reconcile_served_inv:
  assumes "faults w = []" and "wf_services (db w)" and "doc_services doc = Some names"
  shows "served_inv ident names (handler_sent ident names w) (next_id (db w))
           (hr_chains (reconcile ident doc w), hr_world (reconcile ident doc w))"
proof -
  from reconcile_world [OF assms(3), of ident w] assms(1) obtain w2 where
    r: "reconcile ident doc w =
       \<lparr>hr_world = w2\<lparr>issued := issued w2 @ map SelectServicesEq names\<rparr>,
        hr_chains = map (\<lambda>service. Chain service SelectPending) names,
        hr_awaited = [], hr_thrown = None\<rparr>"
    and w2: "issued w2 = issued w @ [UpsertHotels ident (clock w), DeleteHotelsServices ident]"
      "faults w2 = []"
      "db w2 = db_delete_hotels_services ident (db_upsert_hotels ident (clock w) (db w))"
    by metis
  from assms(2) have fresh: "\<not> next_id (db w) \<le> service_id r" if "r \<in> set (services (db w))" for r
    using that by (auto simp: wf_services_def list_all_iff)
  show ?thesis
    unfolding r served_inv_def prod.case
    using assms(2) fresh
    by (auto simp: w2 handler_sent_def sent_def comp_def)
qed

section \<open>Properties of the non-delete branch\<close>

lemma ended_stage: "ended c = (chain_stage c = Fulfilled \<or> (\<exists>e. chain_stage c = Unhandled e))"
  by (cases c, cases "chain_stage c") auto

lemma filter_fulfilled:
  assumes "\<And>c. c \<in> set cs \<Longrightarrow> chain_stage c = Fulfilled"
  shows "filter at_upsert cs = cs \<and> filter at_insert cs = []"
proof -
  have "at_upsert c \<and> \<not> at_insert c" if "c \<in> set cs" for c
    using assms [OF that] by (cases c) simp
  then show ?thesis by (simp add: filter_id_conv filter_empty_conv)
qed

lemma sent_inv_fulfilled:
  assumes "sent_inv ident names pre c0 k0 (cs, w)" and "list_all ended cs" and "c \<in> set cs"
  shows "chain_stage c = Fulfilled"
proof -
  from assms have e: "ended c" and p: "pending_ok (db w) ident (upserts_of (sent pre w)) c"
    by (simp_all add: sent_inv_def list_all_iff)
  then show ?thesis by (cases c, cases "chain_stage c") auto
qed

lemma sent_inv_ended:
  assumes inv: "sent_inv ident names pre c0 k0 (cs, w)" and e: "list_all ended cs"
  shows "length (upserts_of (sent pre w)) + length (inserts_of (sent pre w)) + k0 =
           length names + length (services (db w))"
proof -
  from filter_fulfilled [of cs] sent_inv_fulfilled [OF inv e]
  have "filter at_upsert cs = cs" "filter at_insert cs = []" by simp_all
  moreover from inv have "length cs = length names"
    by (auto simp: sent_inv_def dest: arg_cong [where f = length])
  ultimately show ?thesis using inv by (simp add: sent_inv_def)
qed

lemma served_inv_ended:
  assumes inv: "served_inv ident names pre i0 (cs, w)" and e: "list_all ended cs"
    and n: "n \<in> set names"
  shows "\<exists>s t. (ident, s, t) \<in> set (upserts_of (sent pre w)) \<and> resolves (db w) s n \<and>
           (ident, s) \<in> pairs (db w)"
proof -
  from inv n obtain c where c: "c \<in> set cs" "chain_service c = n"
    by (auto simp: served_inv_def)
  from inv c have ok: "chain_ok (db w) ident i0 (upserts_of (sent pre w)) c"
    by (simp add: served_inv_def)
  from e c have "ended c" by (simp add: list_all_iff)
  with ok c obtain s t where st: "resolves (db w) s n" "(ident, s, t) \<in> set (upserts_of (sent pre w))"
    by (cases c, cases "chain_stage c") auto
  from inv st(2) have "applied_or_pending (db w) ident cs (ident, s, t)"
    by (simp add: served_inv_def)
  moreover have "chain_stage c' \<noteq> UpsertPending s t" if "c' \<in> set cs" for c'
    using e that by (auto simp: list_all_iff ended_stage)
  ultimately have "(ident, s) \<in> pairs (db w)" by (auto simp: applied_or_pending_def)
  with st show ?thesis by blast
qed

lemma served_inv_associated:
  assumes inv: "served_inv ident names pre i0 (cs, w)" and e: "list_all ended cs"
  shows "associated (db w) ident = {s. \<exists>n \<in> set names. resolves (db w) s n}"
proof -
  from inv have wf: "wf_services (db w)"
    and listed: "\<And>s. (ident, s) \<in> pairs (db w) \<Longrightarrow> \<exists>n \<in> set names. resolves (db w) s n"
    by (simp_all add: served_inv_def)
  have "(ident, s) \<in> pairs (db w)" if "n \<in> set names" "resolves (db w) s n" for s n
  proof -
    from served_inv_ended [OF inv e that(1)] obtain s' where
      "resolves (db w) s' n" "(ident, s') \<in> pairs (db w)" by blast
    with resolves_unique_id [OF wf that(2)] show ?thesis by blast
  qed
  with listed show ?thesis by (auto simp: associated_def)
qed

lemma served_inv_names:
  assumes inv: "served_inv ident names pre i0 (cs, w)" and e: "list_all ended cs"
  shows "association_names (db w) ident = set names"
proof -
  from inv have wf: "wf_services (db w)" by (simp add: served_inv_def)
  have a: "\<And>s. ((ident, s) \<in> pairs (db w)) = (\<exists>n \<in> set names. resolves (db w) s n)"
    using served_inv_associated [OF inv e] by (auto simp: associated_def)
  show ?thesis
  proof (rule set_eqI)
    fix m
    show "(m \<in> association_names (db w) ident) = (m \<in> set names)"
    proof
      assume "m \<in> association_names (db w) ident"
      then obtain s n where "n \<in> set names" "resolves (db w) s n" "resolves (db w) s m"
        by (auto simp: association_names_pairs a)
      with resolves_unique [OF wf] show "m \<in> set names" by blast
    next
      assume "m \<in> set names"
      from served_inv_ended [OF inv e this] show "m \<in> association_names (db w) ident"
        by (auto simp: association_names_pairs)
    qed
  qed
qed

lemma settle_sent:
  assumes doc: "doc_services doc = Some names"
    and run: "settle ident sched (reconcile ident doc w) = (cs, w')"
  shows "sent_inv ident names (handler_sent ident names w) (clock w) (length (services (db w)))
           (cs, w')"
  using run_sent_inv [OF reconcile_sent_inv [OF doc, of ident w], of sched] run
  by (simp add: settle_def)

lemma settle_served:
  assumes "faults w = []" and "wf_services (db w)" and doc: "doc_services doc = Some names"
    and run: "settle ident sched (reconcile ident doc w) = (cs, w')"
  shows "served_inv ident names (handler_sent ident names w) (next_id (db w)) (cs, w')"
  using run_served_inv [OF reconcile_served_inv [OF assms(1-3), of ident], of sched] run
  by (simp add: settle_def)

lemma settle_resolves:
  assumes doc: "doc_services doc = Some names"
    and run: "settle ident sched (reconcile ident doc w) = (cs, w')"
    and res: "resolves (db w) s m"
  shows "resolves (db w') s m"
proof -
  from reconcile_world [OF doc, of ident w] obtain w2 where
    r: "reconcile ident doc w =
       \<lparr>hr_world = w2\<lparr>issued := issued w2 @ map SelectServicesEq names\<rparr>,
        hr_chains = map (\<lambda>service. Chain service SelectPending) names,
        hr_awaited = [], hr_thrown = None\<rparr>"
    and s: "services (db w2) = services (db w)"
    by metis
  from res s have "resolves (db (hr_world (reconcile ident doc w))) s m"
    by (simp add: r resolves_def)
  from run_resolves [OF this, of ident sched "hr_chains (reconcile ident doc w)"] run
  show ?thesis by (simp add: settle_def)
qed

lemma sent_inv_issued:
  assumes "sent_inv ident names pre c0 k0 (cs, w)"
  shows "issued w = pre @ sent pre w"
proof -
  from assms have "take (length pre) (issued w) = pre" by (simp add: sent_inv_def)
  then show ?thesis unfolding sent_def by (metis append_take_drop_id)
qed

lemma reconcile_db:
  assumes ff: "faults w = []" and doc: "doc_services doc = Some names"
  shows "db (hr_world (reconcile ident doc w)) =
           db_delete_hotels_services ident (db_upsert_hotels ident (clock w) (db w))"
proof (rule reconcile_world [OF doc, of ident w])
  fix w2
  assume "reconcile ident doc w =
       \<lparr>hr_world = w2\<lparr>issued := issued w2 @ map SelectServicesEq names\<rparr>,
        hr_chains = map (\<lambda>service. Chain service SelectPending) names,
        hr_awaited = [], hr_thrown = None\<rparr>"
    and "faults w = [] \<Longrightarrow> faults w2 = [] \<and>
       db w2 = db_delete_hotels_services ident (db_upsert_hotels ident (clock w) (db w))"
  with ff show ?thesis by simp
qed

text \<open>
  C2, as the code has it. Whatever the environment answers and in whatever order the answers
  arrive, the requests of one run of the non-delete branch are, in this order: the upsert of
  the hotel's row with the time read at the start, the deletion of all associations of the
  hotel, one select per element of the list, duplicates included, and after these only
  inserts of listed names and upserts for this hotel, each upsert for a service that bears a
  listed name and with a time read during the run. Once all chains have ended, the upserts
  sent are as many as the elements of the list less the inserts that added no row: an
  element whose insert comes back without data produces no upsert. When the store serves
  every request, the hotel's row is stamped and its associations are gone when the handler
  returns, and once all chains have ended every listed name has an upsert for a service
  that bears it.
\<close>

theorem reconcile_steps:
  assumes "doc_services doc = Some names"
    and "settle ident sched (reconcile ident doc w) = (cs, w')"
  shows "\<exists>rest.
      issued w' =
        issued w @ [UpsertHotels ident (clock w), DeleteHotelsServices ident] @
        map SelectServicesEq names @ rest \<and>
      list_all (chain_request ident names) rest \<and>
      (\<forall>u \<in> set (upserts_of rest). upsert_ok (db w') ident names (clock w) (clock w') u) \<and>
      (list_all ended cs \<longrightarrow>
         length (upserts_of rest) + length (inserts_of rest) + length (services (db w)) =
           length names + length (services (db w'))) \<and>
      (faults w = [] \<and> wf_services (db w) \<longrightarrow>
         db (hr_world (reconcile ident doc w)) =
           db_delete_hotels_services ident (db_upsert_hotels ident (clock w) (db w)) \<and>
         (list_all ended cs \<longrightarrow>
            (\<forall>n \<in> set names. \<exists>s t. (ident, s, t) \<in> set (upserts_of rest) \<and> resolves (db w') s n)))"
proof -
  let ?pre = "handler_sent ident names w"
  note inv = settle_sent [OF assms]
  from sent_inv_issued [OF inv] have
    "issued w' =
        issued w @ [UpsertHotels ident (clock w), DeleteHotelsServices ident] @
        map SelectServicesEq names @ sent ?pre w'"
    by (simp add: handler_sent_def)
  moreover from inv have "list_all (chain_request ident names) (sent ?pre w')"
    and "\<forall>u \<in> set (upserts_of (sent ?pre w')). upsert_ok (db w') ident names (clock w) (clock w') u"
    by (simp_all add: sent_inv_def)
  moreover have "list_all ended cs \<longrightarrow>
         length (upserts_of (sent ?pre w')) + length (inserts_of (sent ?pre w')) +
           length (services (db w)) =
           length names + length (services (db w'))"
    using sent_inv_ended [OF inv] by blast
  moreover have "faults w = [] \<and> wf_services (db w) \<longrightarrow>
         db (hr_world (reconcile ident doc w)) =
           db_delete_hotels_services ident (db_upsert_hotels ident (clock w) (db w)) \<and>
         (list_all ended cs \<longrightarrow>
            (\<forall>n \<in> set names. \<exists>s t. (ident, s, t) \<in> set (upserts_of (sent ?pre w')) \<and>
               resolves (db w') s n))"
  proof (intro impI conjI ballI; elim conjE)
    assume ff: "faults w = []" and wf: "wf_services (db w)"
    from reconcile_db [OF ff assms(1)]
    show "db (hr_world (reconcile ident doc w)) =
           db_delete_hotels_services ident (db_upsert_hotels ident (clock w) (db w))" .
  next
    fix n
    assume ff: "faults w = []" and wf: "wf_services (db w)" and e: "list_all ended cs"
      and n: "n \<in> set names"
    from served_inv_ended [OF settle_served [OF ff wf assms] e n]
    show "\<exists>s t. (ident, s, t) \<in> set (upserts_of (sent ?pre w')) \<and> resolves (db w') s n"
      by blast
  qed
  ultimately show ?thesis by blast
qed

theorem reconcile_steps_witness:
  "doc_services demo_document = Some [''wifi'', ''spa'', ''spa''] \<and>
   faults demo_world = [] \<and> wf_services (db demo_world) \<and> list_all ended (fst demo_settled) \<and>
   db (hr_world (reconcile ''H3'' demo_document demo_world)) =
     db_delete_hotels_services ''H3'' (db_upsert_hotels ''H3'' (clock demo_world) (db demo_world)) \<and>
   (\<exists>rest. issued (snd demo_settled) =
        issued demo_world @ [UpsertHotels ''H3'' (clock demo_world), DeleteHotelsServices ''H3''] @
        map SelectServicesEq [''wifi'', ''spa'', ''spa''] @ rest \<and>
      list_all (chain_request ''H3'' [''wifi'', ''spa'', ''spa'']) rest \<and>
      (\<forall>u \<in> set (upserts_of rest).
         upsert_ok (db (snd demo_settled)) ''H3'' [''wifi'', ''spa'', ''spa'']
           (clock demo_world) (clock (snd demo_settled)) u) \<and>
      length (upserts_of rest) + length (inserts_of rest) + length (services (db demo_world)) =
        length [''wifi'', ''spa'', ''spa''] + length (services (db (snd demo_settled))) \<and>
      (\<forall>n \<in> set [''wifi'', ''spa'', ''spa''].
         \<exists>s t. (''H3'', s, t) \<in> set (upserts_of rest) \<and> resolves (db (snd demo_settled)) s n))"
proof -
  have given: "doc_services demo_document = Some [''wifi'', ''spa'', ''spa'']"
    "faults demo_world = []" "wf_services (db demo_world)"
    "list_all ended (fst demo_settled)"
    by code_simp+
  have "settle ''H3'' interleaved (reconcile ''H3'' demo_document demo_world) =
      (fst demo_settled, snd demo_settled)"
    by (simp add: demo_settled_def)
  from reconcile_steps [OF given(1) this] given show ?thesis by blast
qed

text \<open>
  C2, as the claim has it, fails: an element of the list can end without an upsert. The
  store serves every request, the document lists spa twice, no service bears that name, and
  both selects are answered before either insert. The store refuses the second insert, for
  the name is taken, and the chain of that element ends there: three elements, two upserts,
  nothing logged.
\<close>

theorem reconcile_steps_counterexample:
  "faults demo_world = [] \<and> wf_services (db demo_world) \<and>
   doc_services demo_document = Some [''wifi'', ''spa'', ''spa''] \<and>
   demo_settled = settle ''H3'' [0, 1, 2, 2, 1, 0, 1, 2] (reconcile ''H3'' demo_document demo_world) \<and>
   fst demo_settled = [Chain ''wifi'' Fulfilled, Chain ''spa'' Fulfilled, Chain ''spa'' Fulfilled] \<and>
   issued (snd demo_settled) =
     [UpsertHotels ''H3'' 10, DeleteHotelsServices ''H3'',
      SelectServicesEq ''wifi'', SelectServicesEq ''spa'', SelectServicesEq ''spa'',
      UpsertHotelsServices ''H3'' 1 13, InsertServices ''spa'', InsertServices ''spa'',
      UpsertHotelsServices ''H3'' 3 16] \<and>
   length (upserts_of (issued (snd demo_settled))) = 2 \<and>
   logged (snd demo_settled) = []"
proof -
  have "faults demo_world = []" "wf_services (db demo_world)"
    "doc_services demo_document = Some [''wifi'', ''spa'', ''spa'']"
    "fst demo_settled = [Chain ''wifi'' Fulfilled, Chain ''spa'' Fulfilled, Chain ''spa'' Fulfilled]"
    "issued (snd demo_settled) =
     [UpsertHotels ''H3'' 10, DeleteHotelsServices ''H3'',
      SelectServicesEq ''wifi'', SelectServicesEq ''spa'', SelectServicesEq ''spa'',
      UpsertHotelsServices ''H3'' 1 13, InsertServices ''spa'', InsertServices ''spa'',
      UpsertHotelsServices ''H3'' 3 16]"
    "length (upserts_of (issued (snd demo_settled))) = 2"
    "logged (snd demo_settled) = []"
    by code_simp+
  moreover have "demo_settled =
      settle ''H3'' [0, 1, 2, 2, 1, 0, 1, 2] (reconcile ''H3'' demo_document demo_world)"
    by (simp add: demo_settled_def interleaved_def)
  ultimately show ?thesis by simp
qed

text \<open>
  C6. When the store serves every request, two runs of the non-delete branch for the same
  hotel and list, each with all its chains ended, leave the hotel associated with the same
  services as one run: the same pairs of hotel and service, under the same names, which are
  the listed names. For the empty list the hotel is left without associations, at the
  handler's return already.
\<close>

theorem reconcile_idempotent:
  assumes "faults w = []" and "wf_services (db w)" and "doc_services doc = Some names"
    and "settle ident sched1 (reconcile ident doc w) = (cs1, w1)" and "list_all ended cs1"
    and "settle ident sched2 (reconcile ident doc w1) = (cs2, w2)" and "list_all ended cs2"
  shows "associated (db w2) ident = associated (db w1) ident \<and>
         association_names (db w2) ident = association_names (db w1) ident \<and>
         association_names (db w1) ident = set names \<and>
         (names = [] \<longrightarrow> associated (db w1) ident = {} \<and>
            associated (db (hr_world (reconcile ident doc w))) ident = {})"
proof -
  note inv1 = settle_served [OF assms(1-4)]
  from inv1 have ff1: "faults w1 = []" and wf1: "wf_services (db w1)"
    by (simp_all add: served_inv_def)
  note inv2 = settle_served [OF ff1 wf1 assms(3) assms(6)]
  from inv2 have wf2: "wf_services (db w2)" by (simp add: served_inv_def)
  note a1 = served_inv_associated [OF inv1 assms(5)]
  note a2 = served_inv_associated [OF inv2 assms(7)]
  have "(\<exists>n \<in> set names. resolves (db w2) s n) = (\<exists>n \<in> set names. resolves (db w1) s n)" for s
  proof
    assume "\<exists>n \<in> set names. resolves (db w2) s n"
    then obtain n where n: "n \<in> set names" "resolves (db w2) s n" by blast
    from served_inv_ended [OF inv1 assms(5) n(1)] obtain s1 where s1: "resolves (db w1) s1 n"
      by blast
    from settle_resolves [OF assms(3) assms(6) s1] resolves_unique_id [OF wf2 n(2)]
    have "s = s1" by blast
    with s1 n(1) show "\<exists>n \<in> set names. resolves (db w1) s n" by blast
  next
    assume "\<exists>n \<in> set names. resolves (db w1) s n"
    with settle_resolves [OF assms(3) assms(6)]
    show "\<exists>n \<in> set names. resolves (db w2) s n" by blast
  qed
  with a1 a2 have "associated (db w2) ident = associated (db w1) ident" by simp
  moreover have "association_names (db w2) ident = association_names (db w1) ident"
    and "association_names (db w1) ident = set names"
    using served_inv_names [OF inv1 assms(5)] served_inv_names [OF inv2 assms(7)] by simp_all
  moreover have "names = [] \<longrightarrow> associated (db w1) ident = {} \<and>
            associated (db (hr_world (reconcile ident doc w))) ident = {}"
  proof (intro impI conjI)
    assume "names = []"
    with a1 show "associated (db w1) ident = {}" by simp
    from reconcile_db [OF assms(1) assms(3)]
    have "db (hr_world (reconcile ident doc w)) =
           db_delete_hotels_services ident (db_upsert_hotels ident (clock w) (db w))" .
    then show "associated (db (hr_world (reconcile ident doc w))) ident = {}"
      by (simp add: associated_def)
  qed
  ultimately show ?thesis by blast
qed

theorem reconcile_idempotent_witness:
  "faults demo_world = [] \<and> wf_services (db demo_world) \<and>
   doc_services demo_document = Some [''wifi'', ''spa'', ''spa''] \<and>
   list_all ended (fst demo_settled) \<and> list_all ended (fst demo_settled_twice) \<and>
   associated (db (snd demo_settled_twice)) ''H3'' = associated (db (snd demo_settled)) ''H3'' \<and>
   association_names (db (snd demo_settled_twice)) ''H3'' =
     association_names (db (snd demo_settled)) ''H3'' \<and>
   association_names (db (snd demo_settled)) ''H3'' = set [''wifi'', ''spa'', ''spa'']"
proof -
  have given: "faults demo_world = []" "wf_services (db demo_world)"
    "doc_services demo_document = Some [''wifi'', ''spa'', ''spa'']"
    "list_all ended (fst demo_settled)" "list_all ended (fst demo_settled_twice)"
    by code_simp+
  have once: "settle ''H3'' interleaved (reconcile ''H3'' demo_document demo_world) =
      (fst demo_settled, snd demo_settled)"
    by (simp add: demo_settled_def)
  have twice: "settle ''H3'' (sequential 3) (reconcile ''H3'' demo_document (snd demo_settled)) =
      (fst demo_settled_twice, snd demo_settled_twice)"
    by (simp add: demo_settled_twice_def)
  from reconcile_idempotent [OF given(1-3) once given(4) twice given(5)] given
  show ?thesis by blast
qed

section \<open>The handler returns before its chains end\<close>

lemma not_ended_pending [simp]:
  "list_all (\<lambda>c. \<not> ended c) (map (\<lambda>service. Chain service SelectPending) names)"
  by (induction names) simp_all

text \<open>
  C3. When the two awaited calls resolve and the document has its list, the handler returns
  with one chain per element launched (its select is on the wire) and none of them ended,
  and \<^verbatim>\<open>Promise.all\<close> has waited for none of them: the callback evaluates to
  \<^verbatim>\<open>undefined\<close> for every element. Whatever the chains meet afterwards, in whatever order,
  nothing of it reaches the log.
\<close>

theorem reconcile_returns_before_chains_end:
  assumes "fst (upsert_hotels ident (clock w) w) = Resolved r1"
    and "fst (delete_hotels_services ident (snd (upsert_hotels ident (clock w) w))) = Resolved r2"
    and "doc_services doc = Some names"
  shows "hr_awaited (reconcile ident doc w) = [] \<and>
         hr_chains (reconcile ident doc w) = map (\<lambda>service. Chain service SelectPending) names \<and>
         list_all (\<lambda>c. \<not> ended c) (hr_chains (reconcile ident doc w)) \<and>
         issued (hr_world (reconcile ident doc w)) =
           issued w @ [UpsertHotels ident (clock w), DeleteHotelsServices ident] @
           map SelectServicesEq names \<and>
         (\<forall>sched. logged (snd (settle ident sched (reconcile ident doc w))) = logged w)"
proof -
  obtain w1 where 1: "upsert_hotels ident (clock w) w = (Resolved r1, w1)"
    using assms(1) by (cases "upsert_hotels ident (clock w) w") simp
  obtain w2 where 2: "delete_hotels_services ident w1 = (Resolved r2, w2)"
    using assms(2) 1 by (cases "delete_hotels_services ident w1") simp
  have r: "reconcile ident doc w =
      \<lparr>hr_world = w2\<lparr>issued := issued w2 @ map SelectServicesEq names\<rparr>,
       hr_chains = map (\<lambda>service. Chain service SelectPending) names, hr_awaited = [],
       hr_thrown = None\<rparr>"
    using 1 2 assms(3) by (simp add: reconcile_def map_services_eq promise_all_undefined)
  from perform_effect [OF 1 [unfolded upsert_hotels_def]]
  have "issued w1 = issued w @ [UpsertHotels ident (clock w)]" and "logged w1 = logged w"
    by simp_all
  moreover from perform_effect [OF 2 [unfolded delete_hotels_services_def]]
  have "issued w2 = issued w1 @ [DeleteHotelsServices ident]" and "logged w2 = logged w1"
    by simp_all
  ultimately show ?thesis
    by (simp add: r settle_def run_logged)
qed

theorem reconcile_returns_before_chains_end_witness:
  "fst (upsert_hotels ''H3'' (clock racing_world) racing_world) = Resolved (Success ()) \<and>
   fst (delete_hotels_services ''H3'' (snd (upsert_hotels ''H3'' (clock racing_world) racing_world))) =
     Resolved (Success ()) \<and>
   doc_services spa_document = Some [''spa''] \<and>
   hr_awaited (reconcile ''H3'' spa_document racing_world) = [] \<and>
   hr_chains (reconcile ''H3'' spa_document racing_world) = [Chain ''spa'' SelectPending] \<and>
   fst racing_settled = [Chain ''spa'' Fulfilled] \<and>
   upserts_of (issued (snd racing_settled)) = [] \<and>
   logged (snd racing_settled) = logged racing_world \<and> logged racing_world = []"
proof -
  have given:
    "fst (upsert_hotels ''H3'' (clock racing_world) racing_world) = Resolved (Success ())"
    "fst (delete_hotels_services ''H3''
           (snd (upsert_hotels ''H3'' (clock racing_world) racing_world))) = Resolved (Success ())"
    "doc_services spa_document = Some [''spa'']"
    by code_simp+
  have more: "fst racing_settled = [Chain ''spa'' Fulfilled]"
    "upserts_of (issued (snd racing_settled)) = []"
    "logged racing_world = []"
    by code_simp+
  from reconcile_returns_before_chains_end [OF given, of] given more
  show ?thesis by (simp add: racing_settled_def)
qed

section \<open>Resolving a name\<close>

lemma sequential_2: "sequential 2 = [0, 0, 0, 1, 1, 1]"
  by code_simp

lemma select_absent: "(db_select_services_eq n d = []) = (\<forall>r \<in> set (services d). name r \<noteq> n)"
  by (simp add: db_select_services_eq_def filter_empty_conv)

lemma insert_absent:
  assumes "db_select_services_eq n d = []"
  shows "db_insert_services n d =
     (Success [next_id d],
      d\<lparr>services := services d @ [\<lparr>service_id = next_id d, name = n\<rparr>],
        next_id := Suc (next_id d)\<rparr>)"
proof -
  from assms have no: "\<not> (\<exists>r \<in> set (services d). name r = n)"
    by (simp add: select_absent)
  show ?thesis by (simp only: db_insert_services_def if_not_P [OF no])
qed

lemma insert_refused:
  "fst (db_insert_services n d) = Failure e \<Longrightarrow> snd (db_insert_services n d) = d"
  by (cases "\<exists>r \<in> set (services d). name r = n") (auto simp: db_insert_services_def)

lemma select_after_insert:
  "db_select_services_eq n d = [] \<Longrightarrow>
     db_select_services_eq n (snd (db_insert_services n d)) = [next_id d]"
  by (simp add: insert_absent) (simp add: db_select_services_eq_def)

lemma services_insert:
  "db_select_services_eq n d = [] \<Longrightarrow>
     services (snd (db_insert_services n d)) = services d @ [\<lparr>service_id = next_id d, name = n\<rparr>]"
  by (simp add: insert_absent)

lemma select_after_upsert [simp]:
  "db_select_services_eq n (db_upsert_hotels_services h s t d) = db_select_services_eq n d"
  by (simp add: db_select_services_eq_def db_upsert_hotels_services_def)

lemma respond_served:
  "faults w = [] \<Longrightarrow>
     respond f w = (Resolved (fst (f (db w))), w\<lparr>clock := Suc (clock w), db := snd (f (db w))\<rparr>)"
  by (simp add: respond_cases)

lemma advance_select_found:
  "faults w = [] \<Longrightarrow> db_select_services_eq n (db w) = x # xs \<Longrightarrow>
     advance ident (Chain n SelectPending) w =
       (Chain n (UpsertPending x (Suc (clock w))),
        w\<lparr>clock := Suc (clock w),
          issued := issued w @ [UpsertHotelsServices ident x (Suc (clock w))]\<rparr>)"
  by (simp add: advance.simps answer_select_services_eq_def respond_served launch_def)

lemma advance_select_missing:
  "faults w = [] \<Longrightarrow> db_select_services_eq n (db w) = [] \<Longrightarrow>
     advance ident (Chain n SelectPending) w =
       (Chain n InsertPending,
        w\<lparr>clock := Suc (clock w), issued := issued w @ [InsertServices n]\<rparr>)"
  by (simp add: advance.simps answer_select_services_eq_def respond_served launch_def)

lemma advance_insert:
  "faults w = [] \<Longrightarrow> db_select_services_eq n (db w) = [] \<Longrightarrow>
     advance ident (Chain n InsertPending) w =
       (Chain n (UpsertPending (next_id (db w)) (Suc (clock w))),
        w\<lparr>clock := Suc (clock w), db := snd (db_insert_services n (db w)),
          issued := issued w @ [UpsertHotelsServices ident (next_id (db w)) (Suc (clock w))]\<rparr>)"
  by (simp add: advance.simps answer_insert_services_def respond_served launch_def insert_absent)

lemma advance_upsert:
  "faults w = [] \<Longrightarrow>
     advance ident (Chain n (UpsertPending s t)) w =
       (Chain n Fulfilled,
        w\<lparr>clock := Suc (clock w), db := db_upsert_hotels_services ident s t (db w)\<rparr>)"
  by (simp add: advance.simps answer_upsert_hotels_services_def respond_served)

lemma resolve_twice_absent:
  assumes ff: "faults w = []" and absent: "db_select_services_eq n (db w) = []"
  shows "run ident (sequential 2) ([Chain n SelectPending, Chain n SelectPending], w) =
     ([Chain n Fulfilled, Chain n Fulfilled],
      w\<lparr>clock := Suc (Suc (Suc (Suc (Suc (clock w))))),
        db := db_upsert_hotels_services ident (next_id (db w)) (Suc (Suc (Suc (Suc (clock w)))))
               (db_upsert_hotels_services ident (next_id (db w)) (Suc (Suc (clock w)))
                  (snd (db_insert_services n (db w)))),
        issued := issued w @ [InsertServices n,
                    UpsertHotelsServices ident (next_id (db w)) (Suc (Suc (clock w))),
                    UpsertHotelsServices ident (next_id (db w))
                      (Suc (Suc (Suc (Suc (clock w)))))]\<rparr>)"
proof -
  let ?x = "next_id (db w)"
  let ?d1 = "snd (db_insert_services n (db w))"
  let ?t1 = "Suc (Suc (clock w))"
  let ?t2 = "Suc (Suc (Suc (Suc (clock w))))"
  let ?d2 = "db_upsert_hotels_services ident ?x ?t1 ?d1"
  let ?w1 = "w\<lparr>clock := Suc (clock w), issued := issued w @ [InsertServices n]\<rparr>"
  let ?w2 = "w\<lparr>clock := ?t1, db := ?d1,
               issued := issued w @ [InsertServices n, UpsertHotelsServices ident ?x ?t1]\<rparr>"
  let ?w3 = "w\<lparr>clock := Suc ?t1, db := ?d2,
               issued := issued w @ [InsertServices n, UpsertHotelsServices ident ?x ?t1]\<rparr>"
  let ?w4 = "w\<lparr>clock := ?t2, db := ?d2,
               issued := issued w @ [InsertServices n, UpsertHotelsServices ident ?x ?t1,
                                     UpsertHotelsServices ident ?x ?t2]\<rparr>"
  let ?w5 = "w\<lparr>clock := Suc ?t2, db := db_upsert_hotels_services ident ?x ?t2 ?d2,
               issued := issued w @ [InsertServices n, UpsertHotelsServices ident ?x ?t1,
                                     UpsertHotelsServices ident ?x ?t2]\<rparr>"
  have 1: "advance ident (Chain n SelectPending) w = (Chain n InsertPending, ?w1)"
    by (rule advance_select_missing [OF ff absent])
  have 2: "advance ident (Chain n InsertPending) ?w1 = (Chain n (UpsertPending ?x ?t1), ?w2)"
    using advance_insert [where w = ?w1 and n = n and ident = ident] ff absent by simp
  have 3: "advance ident (Chain n (UpsertPending ?x ?t1)) ?w2 = (Chain n Fulfilled, ?w3)"
    using advance_upsert [of ?w2 ident n ?x ?t1] ff by simp
  have "db_select_services_eq n (db ?w3) = ?x # []"
    using absent by (simp add: select_after_insert)
  from advance_select_found [OF _ this, of ident]
  have 4: "advance ident (Chain n SelectPending) ?w3 = (Chain n (UpsertPending ?x ?t2), ?w4)"
    using ff by simp
  have 5: "advance ident (Chain n (UpsertPending ?x ?t2)) ?w4 = (Chain n Fulfilled, ?w5)"
    using advance_upsert [of ?w4 ident n ?x ?t2] ff by simp
  show ?thesis
    by (simp add: sequential_2 1 2 3 4 5)
qed

lemma resolve_twice_present:
  assumes ff: "faults w = []" and present: "db_select_services_eq n (db w) = x # xs"
  shows "run ident (sequential 2) ([Chain n SelectPending, Chain n SelectPending], w) =
     ([Chain n Fulfilled, Chain n Fulfilled],
      w\<lparr>clock := Suc (Suc (Suc (Suc (clock w)))),
        db := db_upsert_hotels_services ident x (Suc (Suc (Suc (clock w))))
               (db_upsert_hotels_services ident x (Suc (clock w)) (db w)),
        issued := issued w @ [UpsertHotelsServices ident x (Suc (clock w)),
                    UpsertHotelsServices ident x (Suc (Suc (Suc (clock w))))]\<rparr>)"
proof -
  let ?t1 = "Suc (clock w)"
  let ?t2 = "Suc (Suc (Suc (clock w)))"
  let ?d1 = "db_upsert_hotels_services ident x ?t1 (db w)"
  let ?w1 = "w\<lparr>clock := ?t1, issued := issued w @ [UpsertHotelsServices ident x ?t1]\<rparr>"
  let ?w2 = "w\<lparr>clock := Suc ?t1, db := ?d1,
               issued := issued w @ [UpsertHotelsServices ident x ?t1]\<rparr>"
  let ?w3 = "w\<lparr>clock := ?t2, db := ?d1,
               issued := issued w @ [UpsertHotelsServices ident x ?t1,
                                     UpsertHotelsServices ident x ?t2]\<rparr>"
  let ?w4 = "w\<lparr>clock := Suc ?t2, db := db_upsert_hotels_services ident x ?t2 ?d1,
               issued := issued w @ [UpsertHotelsServices ident x ?t1,
                                     UpsertHotelsServices ident x ?t2]\<rparr>"
  have 1: "advance ident (Chain n SelectPending) w = (Chain n (UpsertPending x ?t1), ?w1)"
    by (rule advance_select_found [OF ff present])
  have 2: "advance ident (Chain n (UpsertPending x ?t1)) ?w1 = (Chain n Fulfilled, ?w2)"
    using advance_upsert [of ?w1 ident n x ?t1] ff by simp
  have "db_select_services_eq n (db ?w2) = x # xs"
    using present by simp
  from advance_select_found [OF _ this, of ident]
  have 3: "advance ident (Chain n SelectPending) ?w2 = (Chain n (UpsertPending x ?t2), ?w3)"
    using ff by simp
  have 4: "advance ident (Chain n (UpsertPending x ?t2)) ?w3 = (Chain n Fulfilled, ?w4)"
    using advance_upsert [of ?w3 ident n x ?t2] ff by simp
  show ?thesis
    by (simp add: sequential_2 1 2 3 4)
qed

text \<open>
  C5. Two chains for the same name, the second started after the first has ended, on a store
  that serves every request: when no service bears the name, one row is inserted (one insert
  is sent) and both upserts carry its identifier; when a service bears exactly that name, no
  row is inserted and both upserts carry the identifier of the first such service.
\<close>

theorem resolve_twice:
  assumes "faults w = []"
  shows "(db_select_services_eq n (db w) = [] \<longrightarrow>
            fst (run ident (sequential 2) ([Chain n SelectPending, Chain n SelectPending], w)) =
              [Chain n Fulfilled, Chain n Fulfilled] \<and>
            services (db (snd (run ident (sequential 2)
               ([Chain n SelectPending, Chain n SelectPending], w)))) =
              services (db w) @ [\<lparr>service_id = next_id (db w), name = n\<rparr>] \<and>
            issued (snd (run ident (sequential 2)
               ([Chain n SelectPending, Chain n SelectPending], w))) =
              issued w @ [InsertServices n,
                          UpsertHotelsServices ident (next_id (db w)) (Suc (Suc (clock w))),
                          UpsertHotelsServices ident (next_id (db w))
                            (Suc (Suc (Suc (Suc (clock w)))))]) \<and>
         (db_select_services_eq n (db w) = x # xs \<longrightarrow>
            fst (run ident (sequential 2) ([Chain n SelectPending, Chain n SelectPending], w)) =
              [Chain n Fulfilled, Chain n Fulfilled] \<and>
            services (db (snd (run ident (sequential 2)
               ([Chain n SelectPending, Chain n SelectPending], w)))) = services (db w) \<and>
            issued (snd (run ident (sequential 2)
               ([Chain n SelectPending, Chain n SelectPending], w))) =
              issued w @ [UpsertHotelsServices ident x (Suc (clock w)),
                          UpsertHotelsServices ident x (Suc (Suc (Suc (clock w))))])"
proof (intro conjI impI)
  assume absent: "db_select_services_eq n (db w) = []"
  note run = resolve_twice_absent [OF assms absent, of ident]
  show "fst (run ident (sequential 2) ([Chain n SelectPending, Chain n SelectPending], w)) =
      [Chain n Fulfilled, Chain n Fulfilled]"
    unfolding run by simp
  show "services (db (snd (run ident (sequential 2)
               ([Chain n SelectPending, Chain n SelectPending], w)))) =
              services (db w) @ [\<lparr>service_id = next_id (db w), name = n\<rparr>]"
    unfolding run using absent by (simp add: services_insert)
  show "issued (snd (run ident (sequential 2)
               ([Chain n SelectPending, Chain n SelectPending], w))) =
              issued w @ [InsertServices n,
                          UpsertHotelsServices ident (next_id (db w)) (Suc (Suc (clock w))),
                          UpsertHotelsServices ident (next_id (db w))
                            (Suc (Suc (Suc (Suc (clock w)))))]"
    unfolding run by simp
next
  assume present: "db_select_services_eq n (db w) = x # xs"
  note run = resolve_twice_present [OF assms present, of ident]
  show "fst (run ident (sequential 2) ([Chain n SelectPending, Chain n SelectPending], w)) =
      [Chain n Fulfilled, Chain n Fulfilled]"
    unfolding run by simp
  show "services (db (snd (run ident (sequential 2)
               ([Chain n SelectPending, Chain n SelectPending], w)))) = services (db w)"
    unfolding run by simp
  show "issued (snd (run ident (sequential 2)
               ([Chain n SelectPending, Chain n SelectPending], w))) =
              issued w @ [UpsertHotelsServices ident x (Suc (clock w)),
                          UpsertHotelsServices ident x (Suc (Suc (Suc (clock w))))]"
    unfolding run by simp
qed

theorem resolve_twice_witness:
  "faults demo_world = [] \<and>
   db_select_services_eq ''Wifi'' (db demo_world) = [] \<and>
   services (db (snd (run ''H3'' (sequential 2)
       ([Chain ''Wifi'' SelectPending, Chain ''Wifi'' SelectPending], demo_world)))) =
     services (db demo_world) @ [\<lparr>service_id = next_id (db demo_world), name = ''Wifi''\<rparr>] \<and>
   db_select_services_eq ''wifi'' (db demo_world) = [1] \<and>
   services (db (snd (run ''H3'' (sequential 2)
       ([Chain ''wifi'' SelectPending, Chain ''wifi'' SelectPending], demo_world)))) =
     services (db demo_world) \<and>
   issued (snd (run ''H3'' (sequential 2)
       ([Chain ''wifi'' SelectPending, Chain ''wifi'' SelectPending], demo_world))) =
     issued demo_world @ [UpsertHotelsServices ''H3'' 1 (Suc (clock demo_world)),
                          UpsertHotelsServices ''H3'' 1 (Suc (Suc (Suc (clock demo_world))))]"
proof -
  have given: "faults demo_world = []" "db_select_services_eq ''Wifi'' (db demo_world) = []"
    "db_select_services_eq ''wifi'' (db demo_world) = [1]"
    by code_simp+
  from resolve_twice [OF given(1), of "''Wifi''" "''H3''" 1 "[]"]
       resolve_twice [OF given(1), of "''wifi''" "''H3''" 1 "[]"] given
  show ?thesis by simp
qed

section \<open>An insert that returns no data\<close>

lemma starved_facts:
  "fst starved_at_insert = [Chain ''spa'' InsertPending]"
  "list_all ended (fst starved_settled)"
  "logged (snd starved_settled) = []"
  "upserts_of (issued (snd starved_settled)) = []"
  "''spa'' \<notin> js_name ` j_services ` set (joined_rows (db (snd starved_settled)) ''H3'')"
  by code_simp+

text \<open>
  C9. In the branch for a new service, when the response to the insert holds no data the
  chain ends fulfilled at once: no upsert is sent, nothing is logged, nothing is raised and
  the tables are as they were. So a name of the document can be missing from the hotel's
  associations without a trace: in the example the document lists spa, the chain has ended,
  no upsert was sent, the log is empty, and spa is not among the names of H3.
\<close>

theorem insert_without_data:
  assumes "answer_insert_services service w = (Resolved response, w1)"
    and "data response = None"
  shows "advance ident (Chain service InsertPending) w = (Chain service Fulfilled, w1) \<and>
         ended (Chain service Fulfilled) \<and>
         issued w1 = issued w \<and> logged w1 = logged w \<and> db w1 = db w \<and>
         (doc_services spa_document = Some [''spa''] \<and>
          list_all ended (fst starved_settled) \<and>
          upserts_of (issued (snd starved_settled)) = [] \<and>
          logged (snd starved_settled) = [] \<and>
          ''spa'' \<notin> association_names (db (snd starved_settled)) ''H3'')"
proof -
  have "advance ident (Chain service InsertPending) w = (Chain service Fulfilled, w1) \<and>
         ended (Chain service Fulfilled) \<and>
         issued w1 = issued w \<and> logged w1 = logged w \<and> db w1 = db w"
    using assms
    by (cases response)
       (auto simp: advance.simps answer_insert_services_def respond_cases insert_refused
             split: list.splits fault.splits)
  moreover have "''spa'' \<notin> association_names (db (snd starved_settled)) ''H3''"
    using starved_facts(5) unfolding names_joined_rows .
  moreover have "doc_services spa_document = Some [''spa'']"
    by (simp add: spa_document_def)
  ultimately show ?thesis using starved_facts(2-4) by simp
qed

theorem insert_without_data_witness:
  "fst starved_at_insert = [Chain ''spa'' InsertPending] \<and>
   fst (answer_insert_services ''spa'' (snd starved_at_insert)) = Resolved (Failure demo_error) \<and>
   data (Failure demo_error :: nat list response) = None \<and>
   advance ''H3'' (Chain ''spa'' InsertPending) (snd starved_at_insert) =
     (Chain ''spa'' Fulfilled, snd (answer_insert_services ''spa'' (snd starved_at_insert))) \<and>
   issued (snd (answer_insert_services ''spa'' (snd starved_at_insert))) =
     issued (snd starved_at_insert)"
proof -
  have given:
    "fst (answer_insert_services ''spa'' (snd starved_at_insert)) = Resolved (Failure demo_error)"
    by code_simp
  then have "answer_insert_services ''spa'' (snd starved_at_insert) =
      (Resolved (Failure demo_error), snd (answer_insert_services ''spa'' (snd starved_at_insert)))"
    by (simp add: prod_eq_iff)
  from insert_without_data [OF this, of "''H3''"] given starved_facts(1)
  show ?thesis by simp
qed

section \<open>A schedule that ends every chain\<close>

text \<open>
  The theorems about runs in which all chains have ended are about something: three answers
  end a chain, whatever they are, so the schedule that gives every chain three steps in turn
  ends them all, whatever the list.
\<close>

lemma ended_remaining: "ended c = (remaining c = 0)"
proof (cases c)
  case (Chain n st)
  then show ?thesis by (cases st) simp_all
qed

lemma run_append: "run ident (xs @ ys) sys = run ident ys (run ident xs sys)"
proof (induction xs arbitrary: sys)
  case Nil
  show ?case by simp
next
  case (Cons i xs)
  obtain cs w where sys: "sys = (cs, w)" by (cases sys)
  show ?case unfolding sys using Cons.IH by (simp split: prod.splits)
qed

lemma advance_progress:
  assumes adv: "advance ident c w = (c', w')"
  shows "remaining c' \<le> remaining c - 1"
proof (cases c)
  case (Chain n st)
  show ?thesis
  proof (cases st)
    case SelectPending
    with adv Chain advance_select_cases [of ident n w c' w'] show ?thesis by auto
  next
    case InsertPending
    with adv Chain advance_insert_cases [of ident n w c' w'] show ?thesis by auto
  next
    case (UpsertPending s t)
    with adv Chain advance_upsert_cases [of ident n s t w c' w'] show ?thesis by auto
  next
    case Fulfilled
    with adv Chain show ?thesis by auto
  next
    case (Unhandled e)
    with adv Chain show ?thesis by auto
  qed
qed

lemma run_one:
  assumes i: "i < length cs"
  shows "\<exists>c w'. run ident [i] (cs, w) = (cs[i := c], w') \<and>
           remaining c \<le> remaining (cs ! i) - 1"
proof -
  obtain c w' where a: "advance ident (cs ! i) w = (c, w')" by (cases "advance ident (cs ! i) w")
  from advance_progress [OF a] a i show ?thesis by auto
qed

lemma run_three:
  assumes i: "i < length cs"
  shows "\<exists>c w'. run ident [i, i, i] (cs, w) = (cs[i := c], w') \<and> ended c"
proof -
  from run_one [OF i, of ident w] obtain c1 w1
    where 1: "run ident [i] (cs, w) = (cs[i := c1], w1)"
      and r1: "remaining c1 \<le> remaining (cs ! i) - 1" by blast
  from i have i1: "i < length (cs[i := c1])" by simp
  from run_one [OF i1, of ident w1] i obtain c2 w2
    where 2: "run ident [i] (cs[i := c1], w1) = (cs[i := c2], w2)"
      and r2: "remaining c2 \<le> remaining c1 - 1" by auto
  from i have i2: "i < length (cs[i := c2])" by simp
  from run_one [OF i2, of ident w2] i obtain c3 w3
    where 3: "run ident [i] (cs[i := c2], w2) = (cs[i := c3], w3)"
      and r3: "remaining c3 \<le> remaining c2 - 1" by auto
  have "remaining (cs ! i) \<le> 3"
  proof (cases "cs ! i")
    case (Chain n st)
    then show ?thesis by (cases st) simp_all
  qed
  with r1 r2 r3 have "ended c3" by (simp add: ended_remaining)
  moreover have "run ident [i, i, i] (cs, w) = (cs[i := c3], w3)"
    using run_append [of ident "[i]" "[i, i]" "(cs, w)"]
          run_append [of ident "[i]" "[i]" "(cs[i := c1], w1)"] 1 2 3
    by simp
  ultimately show ?thesis by blast
qed

lemma sequential_Suc: "sequential (Suc k) = sequential k @ [k, k, k]"
  by (simp add: sequential_def)

lemma sequential_prefix:
  assumes "k \<le> length cs"
  shows "\<exists>cs' w'. run ident (sequential k) (cs, w) = (cs', w') \<and>
           length cs' = length cs \<and> (\<forall>j < k. ended (cs' ! j))"
  using assms
proof (induction k)
  case 0
  show ?case by (simp add: sequential_def)
next
  case (Suc k)
  then obtain cs1 w1 where 1: "run ident (sequential k) (cs, w) = (cs1, w1)"
    and l1: "length cs1 = length cs"
    and e1: "\<forall>j < k. ended (cs1 ! j)" by auto
  from Suc.prems l1 have k: "k < length cs1" by simp
  from run_three [OF k, of ident w1] obtain c w2
    where 2: "run ident [k, k, k] (cs1, w1) = (cs1[k := c], w2)"
      and e2: "ended c" by blast
  have "run ident (sequential (Suc k)) (cs, w) = (cs1[k := c], w2)"
    by (simp only: sequential_Suc run_append 1 2)
  moreover have "\<forall>j < Suc k. ended (cs1[k := c] ! j)"
    using e1 e2 k by (auto simp: less_Suc_eq nth_list_update)
  ultimately show ?case using l1 by auto
qed

lemma sequential_ends:
  "list_all ended (fst (run ident (sequential (length cs)) (cs, w)))"
proof -
  from sequential_prefix [of "length cs" cs ident w] obtain cs' w'
    where "run ident (sequential (length cs)) (cs, w) = (cs', w')"
      and "length cs' = length cs" and "\<forall>j < length cs. ended (cs' ! j)" by auto
  then show ?thesis by (simp add: list_all_length)
qed

end
